theory Spec2Isabelle
  imports Complex_Main "HOL-Library.Word"
begin

section \<open>JavaScript strings\<close>

text \<open>
  A JavaScript string is a sequence of 16-bit code units. \<open>String.fromCharCode\<close> keeps the
  low 16 bits of its argument, \<open>charCodeAt\<close> reads a code unit as a number, and
  \<open>split('')\<close> cuts a string into its code units.
\<close>

type_synonym jsstring = "16 word list"

type_synonym byte = "8 word"

text \<open>A number stored as a code unit or as a byte keeps its low 16 or 8 bits.\<close>

definition u16 :: "nat \<Rightarrow> 16 word" where
  "u16 n = of_nat n"

definition u8 :: "nat \<Rightarrow> byte" where
  "u8 n = of_nat n"

definition str :: "string \<Rightarrow> jsstring" where
  "str s = map of_char s"

definition fromCharCode :: "int \<Rightarrow> 16 word" where
  "fromCharCode n = word_of_int n"

definition charCode :: "16 word \<Rightarrow> int" where
  "charCode c = uint c"

text \<open>\<open>s.split('').map((char, index) => f(char, index)).join('')\<close>, counting from \<open>i\<close>.\<close>

fun map_index :: "nat \<Rightarrow> (16 word \<Rightarrow> nat \<Rightarrow> 16 word) \<Rightarrow> jsstring \<Rightarrow> jsstring" where
  "map_index i f [] = []"
| "map_index i f (c # cs) = f c i # map_index (Suc i) f cs"

text \<open>
  \<open>String.prototype.trim\<close> removes white space and line terminators from both ends.
\<close>

definition is_ws :: "16 word \<Rightarrow> bool" where
  "is_ws c \<longleftrightarrow>
     c \<in> {0x9, 0xA, 0xB, 0xC, 0xD, 0x20, 0xA0, 0x1680, 0x2028, 0x2029, 0x202F, 0x205F,
          0x3000, 0xFEFF}
     \<or> (0x2000 \<le> c \<and> c \<le> 0x200A)"

definition trim :: "jsstring \<Rightarrow> jsstring" where
  "trim s = rev (dropWhile is_ws (rev (dropWhile is_ws s)))"

section \<open>Node's Buffer: UTF-8 and base64\<close>

text \<open>
  \<open>Buffer.from(s)\<close> encodes a string as UTF-8. A surrogate pair is one code point of four
  bytes; a surrogate without its partner is replaced by U+FFFD.
\<close>

definition is_high :: "16 word \<Rightarrow> bool" where
  "is_high c \<longleftrightarrow> 0xD800 \<le> c \<and> c \<le> 0xDBFF"

definition is_low :: "16 word \<Rightarrow> bool" where
  "is_low c \<longleftrightarrow> 0xDC00 \<le> c \<and> c \<le> 0xDFFF"

definition scalar :: "16 word \<Rightarrow> nat" where
  "scalar c = (if is_high c \<or> is_low c then 0xFFFD else unat c)"

fun code_points :: "jsstring \<Rightarrow> nat list" where
  "code_points [] = []"
| "code_points [c] = [scalar c]"
| "code_points (c # d # cs) =
     (if is_high c \<and> is_low d
      then (0x10000 + (unat c - 0xD800) * 0x400 + (unat d - 0xDC00)) # code_points cs
      else scalar c # code_points (d # cs))"

definition utf8_bytes :: "nat \<Rightarrow> byte list" where
  "utf8_bytes cp =
     (if cp < 0x80 then [u8 cp]
      else if cp < 0x800 then [u8 (0xC0 + cp div 64), u8 (0x80 + cp mod 64)]
      else if cp < 0x10000 then
        [u8 (0xE0 + cp div 4096), u8 (0x80 + cp div 64 mod 64), u8 (0x80 + cp mod 64)]
      else
        [u8 (0xF0 + cp div 262144), u8 (0x80 + cp div 4096 mod 64),
         u8 (0x80 + cp div 64 mod 64), u8 (0x80 + cp mod 64)])"

definition utf8_encode :: "jsstring \<Rightarrow> byte list" where
  "utf8_encode s = concat (map utf8_bytes (code_points s))"

text \<open>
  \<open>buf.toString()\<close> decodes UTF-8. A byte that cannot start or continue a sequence ends
  the sequence read so far, which becomes one U+FFFD; overlong forms, surrogates and
  values above U+10FFFF are excluded by the range of the second byte.
\<close>

definition in_range :: "byte \<Rightarrow> nat \<Rightarrow> nat \<Rightarrow> bool" where
  "in_range b lo hi \<longleftrightarrow> lo \<le> unat b \<and> unat b \<le> hi"

definition low6 :: "byte \<Rightarrow> nat" where
  "low6 b = unat b - 0x80"

fun utf8_points :: "byte list \<Rightarrow> nat list" where
  "utf8_points [] = []"
| "utf8_points (b # bs) =
     (if unat b < 0x80 then unat b # utf8_points bs
      else if in_range b 0xC2 0xDF then
        (case bs of
           [] \<Rightarrow> [0xFFFD]
         | c # bs1 \<Rightarrow>
             if in_range c 0x80 0xBF
             then ((unat b - 0xC0) * 64 + low6 c) # utf8_points bs1
             else 0xFFFD # utf8_points bs)
      else if in_range b 0xE0 0xEF then
        (case bs of
           [] \<Rightarrow> [0xFFFD]
         | c # bs1 \<Rightarrow>
             if in_range c (if unat b = 0xE0 then 0xA0 else 0x80)
                         (if unat b = 0xED then 0x9F else 0xBF)
             then
               (case bs1 of
                  [] \<Rightarrow> [0xFFFD]
                | d # bs2 \<Rightarrow>
                    if in_range d 0x80 0xBF
                    then ((unat b - 0xE0) * 4096 + low6 c * 64 + low6 d) # utf8_points bs2
                    else 0xFFFD # utf8_points bs1)
             else 0xFFFD # utf8_points bs)
      else if in_range b 0xF0 0xF4 then
        (case bs of
           [] \<Rightarrow> [0xFFFD]
         | c # bs1 \<Rightarrow>
             if in_range c (if unat b = 0xF0 then 0x90 else 0x80)
                         (if unat b = 0xF4 then 0x8F else 0xBF)
             then
               (case bs1 of
                  [] \<Rightarrow> [0xFFFD]
                | d # bs2 \<Rightarrow>
                    if in_range d 0x80 0xBF
                    then
                      (case bs2 of
                         [] \<Rightarrow> [0xFFFD]
                       | e # bs3 \<Rightarrow>
                           if in_range e 0x80 0xBF
                           then ((unat b - 0xF0) * 262144 + low6 c * 4096 + low6 d * 64
                                 + low6 e) # utf8_points bs3
                           else 0xFFFD # utf8_points bs2)
                    else 0xFFFD # utf8_points bs1)
             else 0xFFFD # utf8_points bs)
      else 0xFFFD # utf8_points bs)"

definition utf16_units :: "nat \<Rightarrow> jsstring" where
  "utf16_units cp =
     (if cp < 0x10000 then [u16 cp]
      else [u16 (0xD800 + (cp - 0x10000) div 0x400),
            u16 (0xDC00 + (cp - 0x10000) mod 0x400)])"

definition utf8_decode :: "byte list \<Rightarrow> jsstring" where
  "utf8_decode bs = concat (map utf16_units (utf8_points bs))"

text \<open>
  \<open>buf.toString('base64')\<close>: the standard alphabet (\<open>A\<close> to \<open>Z\<close>, \<open>a\<close> to \<open>z\<close>,
  \<open>0\<close> to \<open>9\<close>, \<open>+\<close> and \<open>/\<close>, by their character codes), three bytes to four
  characters, the last group padded with \<open>=\<close>.
\<close>

definition b64_char :: "nat \<Rightarrow> 16 word" where
  "b64_char i =
     u16 (if i < 26 then 65 + i
          else if i < 52 then 71 + i
          else if i < 62 then i - 4
          else if i = 62 then 43
          else 47)"

definition b64_pad :: "16 word" where
  "b64_pad = 0x3D"

fun b64_encode :: "byte list \<Rightarrow> jsstring" where
  "b64_encode [] = []"
| "b64_encode [a] =
     [b64_char (unat a div 4), b64_char (unat a mod 4 * 16), b64_pad, b64_pad]"
| "b64_encode [a, b] =
     [b64_char (unat a div 4), b64_char (unat a mod 4 * 16 + unat b div 16),
      b64_char (unat b mod 16 * 4), b64_pad]"
| "b64_encode (a # b # c # bs) =
     b64_char (unat a div 4) # b64_char (unat a mod 4 * 16 + unat b div 16) #
     b64_char (unat b mod 16 * 4 + unat c div 64) # b64_char (unat c mod 64) #
     b64_encode bs"

text \<open>
  \<open>Buffer.from(s, 'base64')\<close> is tolerant: it reads up to the first \<open>=\<close>, passes over
  every character that is not of the alphabet (the URL-safe \<open>-\<close> and \<open>_\<close> are), and
  turns a last group of two or three characters into one or two bytes. Of every code
  unit it reads the low byte only, so that U+0141 counts as \<open>A\<close>.
\<close>

definition unbase64 :: "16 word \<Rightarrow> nat option" where
  "unbase64 c =
     (let n = unat c mod 256 in
      if 65 \<le> n \<and> n \<le> 90 then Some (n - 65)
      else if 97 \<le> n \<and> n \<le> 122 then Some (n - 71)
      else if 48 \<le> n \<and> n \<le> 57 then Some (n + 4)
      else if n = 43 \<or> n = 45 then Some 62
      else if n = 47 \<or> n = 95 then Some 63
      else None)"

fun sextets :: "jsstring \<Rightarrow> nat list" where
  "sextets [] = []"
| "sextets (c # cs) =
     (if unat c mod 256 = unat b64_pad then []
      else case unbase64 c of None \<Rightarrow> sextets cs | Some n \<Rightarrow> n # sextets cs)"

fun b64_bytes :: "nat list \<Rightarrow> byte list" where
  "b64_bytes (a # b # c # d # ns) =
     u8 (a * 4 + b div 16) # u8 (b mod 16 * 16 + c div 4) # u8 (c mod 4 * 64 + d) #
     b64_bytes ns"
| "b64_bytes [a, b, c] = [u8 (a * 4 + b div 16), u8 (b mod 16 * 16 + c div 4)]"
| "b64_bytes [a, b] = [u8 (a * 4 + b div 16)]"
| "b64_bytes ns = []"

definition b64_decode :: "jsstring \<Rightarrow> byte list" where
  "b64_decode s = b64_bytes (sextets s)"

section \<open>crypt.ts: the codec\<close>

definition defaultKey :: jsstring where
  "defaultKey = str ''qwertyuioplkjhgfdsazxcvbnm''"

definition shiftChar :: "16 word \<Rightarrow> int \<Rightarrow> 16 word" where
  "shiftChar char shift = fromCharCode (charCode char + shift)"

definition unshiftChar :: "16 word \<Rightarrow> int \<Rightarrow> 16 word" where
  "unshiftChar char shift = fromCharCode (charCode char - shift)"

definition keySum :: "jsstring \<Rightarrow> int" where
  "keySum key = foldl (\<lambda>acc char. acc + charCode char) 0 key"

definition base64Encode :: "jsstring \<Rightarrow> jsstring \<Rightarrow> jsstring" where
  "base64Encode data key =
     (let shifted = map_index 0 (\<lambda>char index. shiftChar char ((keySum key + int index) mod 20)) data;
          step1 = b64_encode (utf8_encode shifted);
          step2 = b64_encode (utf8_encode step1);
          finalMix = map_index 0 (\<lambda>char index. shiftChar char (int index mod 5)) step2
      in finalMix)"

definition base64Decode :: "jsstring \<Rightarrow> jsstring \<Rightarrow> jsstring" where
  "base64Decode encryptedData key =
     (let unmixed = map_index 0 (\<lambda>char index. unshiftChar char (int index mod 5)) encryptedData;
          step1 = utf8_decode (b64_decode unmixed);
          step2 = utf8_decode (b64_decode step1);
          final = map_index 0 (\<lambda>char index. unshiftChar char ((keySum key + int index) mod 20)) step2
      in final)"

section \<open>generator.ts\<close>

text \<open>
  \<open>Math.random()\<close> is the only source of randomness. The sequence of its results is a
  parameter \<open>rnd\<close>; the number of calls made so far is threaded through every function
  that draws, so that \<open>rnd p\<close> is the result of call number \<open>p\<close>. A result lies in
  \<open>[0, 1)\<close>; the arithmetic on it is that of the reals.
\<close>

datatype CharacterSetType = defaultSet | set1 | set2

fun characterSets :: "CharacterSetType \<Rightarrow> jsstring" where
  "characterSets defaultSet = str ''ABCDEFGHIJKLMNOPQRSTUVWXYZabcdefghijklmnopqrstuvwxyz0123456789''"
| "characterSets set1 = str ''0123456789''"
| "characterSets set2 = str ''ABCDEFGHIJKLMNOPQRSTUVWXYZabcdefghijklmnopqrstuvwxyz''"

type_synonym random = "nat \<Rightarrow> real"

text \<open>\<open>s.charAt(i)\<close> is the empty string when \<open>i\<close> is out of range.\<close>

definition charAt :: "jsstring \<Rightarrow> int \<Rightarrow> jsstring" where
  "charAt s i = (if 0 \<le> i \<and> i < int (length s) then [s ! nat i] else [])"

text \<open>\<open>characterSet.charAt(Math.floor(Math.random() * characterSet.length))\<close>\<close>

definition random_char :: "random \<Rightarrow> jsstring \<Rightarrow> nat \<Rightarrow> jsstring" where
  "random_char rnd characterSet p = charAt characterSet \<lfloor>rnd p * real (length characterSet)\<rfloor>"

text \<open>
  \<open>for (let i = 0; i < length; i++) token += ...\<close>: the first argument counts the
  iterations left.
\<close>

fun for_loop :: "random \<Rightarrow> jsstring \<Rightarrow> nat \<Rightarrow> jsstring \<Rightarrow> nat \<Rightarrow> jsstring \<times> nat" where
  "for_loop rnd characterSet 0 token p = (token, p)"
| "for_loop rnd characterSet (Suc n) token p =
     for_loop rnd characterSet n (token @ random_char rnd characterSet p) (Suc p)"

text \<open>
  The \<open>do ... while\<close> loop. Its body splits \<open>token\<close> into \<open>_token_\<close>, an array of
  one-character strings, redraws \<open>_token_[0]\<close> when it is \<open>'0'\<close> (\<open>token\<close> itself is
  never changed there), and lengthens \<open>token\<close> when it is too short. The loop goes on
  while \<open>_token_[0] === '0' || token.length !== length\<close>, and nothing bounds the
  number of rounds: a run that never leaves the loop is the value \<open>None\<close>.
\<close>

definition split :: "jsstring \<Rightarrow> jsstring list" where
  "split s = map (\<lambda>c. [c]) s"

definition starts_with_zero :: "jsstring list \<Rightarrow> bool" where
  "starts_with_zero t = (case t of [] \<Rightarrow> False | c # _ \<Rightarrow> c = str ''0'')"

definition do_body :: "random \<Rightarrow> jsstring \<Rightarrow> int \<Rightarrow> jsstring \<Rightarrow> nat \<Rightarrow> jsstring list \<times> jsstring \<times> nat" where
  "do_body rnd characterSet len token p =
     (let t = split token;
          (t, p) = (if starts_with_zero t then (t[0 := random_char rnd characterSet p], Suc p)
                    else (t, p));
          (token, p) = (if int (length token) < len
                        then (token @ random_char rnd characterSet p, Suc p) else (token, p))
      in (t, token, p))"

partial_function (option) do_while :: "random \<Rightarrow> jsstring \<Rightarrow> int \<Rightarrow> jsstring \<Rightarrow> nat \<Rightarrow> (jsstring \<times> nat) option" where
  "do_while rnd characterSet len token p =
     (case do_body rnd characterSet len token p of (t, token', p') \<Rightarrow>
        if starts_with_zero t \<or> int (length token') \<noteq> len
        then do_while rnd characterSet len token' p'
        else Some (concat t, p'))"

text \<open>
  \<open>tokenGenerator(length, type_)\<close>. The set is \<open>characterSets[type_] ||
  characterSets.defaultSet\<close>; \<open>None\<close> is an omitted (undefined) name. The result is the
  token and the number of draws made.
\<close>

definition resolve_set :: "CharacterSetType option \<Rightarrow> jsstring" where
  "resolve_set type' = (case type' of None \<Rightarrow> characterSets defaultSet | Some t \<Rightarrow> characterSets t)"

definition tokenGenerator :: "random \<Rightarrow> int \<Rightarrow> CharacterSetType option \<Rightarrow> nat \<Rightarrow> (jsstring \<times> nat) option" where
  "tokenGenerator rnd len type' p =
     (let characterSet = resolve_set type';
          (token, p) = for_loop rnd characterSet (nat len) [] p
      in do_while rnd characterSet len token p)"

section \<open>crypt.ts: encrypt and decrypt\<close>

text \<open>
  Both functions run in \<open>try { ... } catch (err) { throw new Error(...) }\<close>: whatever is
  thrown inside is thrown again, wrapped. The one error the body of \<open>decrypt\<close> can raise
  is the \<open>TypeError\<close> of \<open>undefined.charCodeAt\<close>.
\<close>

datatype error = TypeError | DecodingError error | EncodingError error

text \<open>
  The options object of \<open>decrypt\<close>, \<open>{key?: string}\<close>: the property may be absent
  (\<open>{}\<close>), present and undefined, or a string. \<open>None\<close> at the parameter is an omitted
  options object.
\<close>

datatype key_property = Absent | Undefined | Key jsstring

record EncryptOptions =
  firstRandomCharSet :: "CharacterSetType option"
  secondRandomCharSet :: "CharacterSetType option"
  key :: "jsstring option"

text \<open>
  The loop of \<open>decrypt\<close>, from \<open>i = firsPart + 1\<close>. \<open>data[i]\<close> is undefined for a
  negative \<open>i\<close>, and \<open>data.slice(i, data.length - 1).length\<close> is the number of
  characters from \<open>i\<close> to the last but one.
\<close>

function scan :: "jsstring \<Rightarrow> int \<Rightarrow> int \<Rightarrow> jsstring \<Rightarrow> error + jsstring" where
  "scan data secondPart i res =
     (if i < int (length data) then
        if i < 0 then Inl TypeError
        else
          let charCode = charCode (data ! nat i);
              len = max 0 (int (length data) - 1 - i)
          in if len \<noteq> secondPart
             then scan data secondPart (i + 1) (res @ [fromCharCode (charCode - 80 + 70)])
             else Inr res
      else Inr res)"
  by pat_completeness auto
termination
  by (relation "measure (\<lambda>(data, secondPart, i, res). nat (int (length data) - i))") auto

declare scan.simps [simp del]

text \<open>
  \<open>decrypt(data, options)\<close>. An omitted \<open>options\<close> becomes \<open>{key: defaultKey}\<close>; the key
  is then \<open>options.hasOwnProperty('key') ? options.key : 'secretKey'\<close>, and an undefined
  key takes the default of \<open>base64Decode\<close>'s parameter.
\<close>

definition decrypt :: "jsstring \<Rightarrow> key_property option \<Rightarrow> error + jsstring" where
  "decrypt data options =
     (let options = (case options of None \<Rightarrow> Key defaultKey | Some opts \<Rightarrow> opts);
          k = (case options of Absent \<Rightarrow> str ''secretKey'' | Undefined \<Rightarrow> defaultKey | Key k \<Rightarrow> k);
          data = map (\<lambda>char. fromCharCode (charCode char - 80 + 70)) (base64Decode (trim data) k)
      in case data of
           [] \<Rightarrow> Inl (DecodingError TypeError)
         | c # _ \<Rightarrow>
             let firsPart = charCode c - 85;
                 secondPart = charCode (last data) - 85
             in case scan data secondPart (firsPart + 1) [] of
                  Inl err \<Rightarrow> Inl (DecodingError err)
                | Inr res \<Rightarrow> Inr res)"

text \<open>
  The ciphertext \<open>encrypt\<close> builds from the trimmed plaintext and the two paddings, before
  it verifies it.
\<close>

definition candidate :: "jsstring \<Rightarrow> jsstring \<Rightarrow> jsstring \<Rightarrow> jsstring option \<Rightarrow> jsstring" where
  "candidate data randomChars0 randomChars1 k =
     (let firsPart = fromCharCode (int (length randomChars0) + 85);
          secondPart = fromCharCode (int (length randomChars1) + 85);
          res = map (\<lambda>c. fromCharCode (charCode c + 80 - 70)) data;
          encrypted = [firsPart] @ randomChars0 @ res @ randomChars1 @ [secondPart]
      in base64Encode (map (\<lambda>char. fromCharCode (charCode char + 80 - 70)) encrypted)
           (case k of None \<Rightarrow> defaultKey | Some k \<Rightarrow> k))"

text \<open>The object \<open>{key: k}\<close>, whose property is present even when \<open>k\<close> is undefined.\<close>

definition key_of :: "jsstring option \<Rightarrow> key_property" where
  "key_of k = (case k of None \<Rightarrow> Undefined | Some k \<Rightarrow> Key k)"

definition defaultOptions :: EncryptOptions where
  "defaultOptions = \<lparr>firstRandomCharSet = Some defaultSet, secondRandomCharSet = Some defaultSet,
     key = Some defaultKey\<rparr>"

text \<open>
  \<open>encrypt(data, options)\<close> on a string. When \<open>decrypt\<close> does not give the trimmed
  plaintext back, \<open>encrypt\<close> calls itself and drops the result of the call (the branch has
  no \<open>return\<close>), so the caller gets \<open>undefined\<close>: the result is \<open>Some c\<close> for a string,
  \<open>None\<close> for \<open>undefined\<close>. The recursion is not bounded.
\<close>

partial_function (option) encrypt ::
  "random \<Rightarrow> jsstring \<Rightarrow> EncryptOptions option \<Rightarrow> nat \<Rightarrow> (error + jsstring option \<times> nat) option" where
  "encrypt rnd data options p =
     (let options = (case options of None \<Rightarrow> defaultOptions | Some opts \<Rightarrow> opts);
          data = trim data
      in Option.bind (tokenGenerator rnd \<lfloor>rnd p * (5 + 15) + 1\<rfloor> (firstRandomCharSet options) (Suc p))
           (\<lambda>(randomChars0, p).
      Option.bind (tokenGenerator rnd \<lfloor>rnd p * (5 + 15) + 1\<rfloor> (secondRandomCharSet options) (Suc p))
           (\<lambda>(randomChars1, p).
        let encrypted = candidate data randomChars0 randomChars1 (key options)
        in case decrypt encrypted (Some (key_of (key options))) of
             Inl err \<Rightarrow> Some (Inl (EncodingError err))
           | Inr decrypted \<Rightarrow>
               if decrypted = data then Some (Inr (Some encrypted, p))
               else Option.bind (encrypt rnd data (Some options) p)
                      (\<lambda>r. case r of
                              Inl err \<Rightarrow> Some (Inl (EncodingError err))
                            | Inr (_, p) \<Rightarrow> Some (Inr (None, p))))))"

section \<open>crypt.ts: isEqual\<close>






section \<open>crypt.ts: encryptObject and decryptObject\<close>

text \<open>
  The values the walkers meet. A number is an integer here, as in the repository's own
  examples; fractions, \<open>NaN\<close> and the infinities are left out. An object is the list of its own enumerable properties in the order of
  \<open>Object.entries\<close>, an array the list of its elements. \<open>JFunction\<close> stands for every
  value whose \<open>typeof\<close> is neither a scalar's nor \<open>'object'\<close>.
\<close>

datatype jsvalue =
    JString jsstring
  | JNumber int
  | JBoolean bool
  | JNull
  | JUndefined
  | JFunction
  | JArray "jsvalue list"
  | JObject "(jsstring \<times> jsvalue) list"

text \<open>
  \<open>String(v)\<close> of a number and of a boolean. The decimal digits are what JavaScript
  prints for an integer of absolute value up to \<open>2^53\<close>; beyond that a number is rounded
  to a double and printed with its shortest digits, and in exponent form from \<open>10^21\<close>
  on, which the digits here do not follow.
\<close>

function digits :: "nat \<Rightarrow> jsstring" where
  "digits n = (if n < 10 then [u16 (48 + n)] else digits (n div 10) @ [u16 (48 + n mod 10)])"
  by pat_completeness auto
termination
  by (relation "measure id") auto

definition String_number :: "int \<Rightarrow> jsstring" where
  "String_number n = (if n < 0 then str ''-'' @ digits (nat (- n)) else digits (nat n))"

definition String_boolean :: "bool \<Rightarrow> jsstring" where
  "String_boolean b = (if b then str ''true'' else str ''false'')"

text \<open>
  \<open>Object.entries(data)\<close>: the properties of an object, the indexed elements of an array
  or of a string, nothing for another primitive, and a \<open>TypeError\<close> for \<open>null\<close> and
  \<open>undefined\<close>.
\<close>

fun index_from :: "nat \<Rightarrow> 'a list \<Rightarrow> (jsstring \<times> 'a) list" where
  "index_from i [] = []"
| "index_from i (x # xs) = (digits i, x) # index_from (Suc i) xs"

definition entries :: "jsvalue \<Rightarrow> error + (jsstring \<times> jsvalue) list" where
  "entries v =
     (case v of
        JObject kvs \<Rightarrow> Inr kvs
      | JArray xs \<Rightarrow> Inr (index_from 0 xs)
      | JString s \<Rightarrow> Inr (index_from 0 (map (\<lambda>c. JString [c]) s))
      | JNull \<Rightarrow> Inl TypeError
      | JUndefined \<Rightarrow> Inl TypeError
      | _ \<Rightarrow> Inr [])"

text \<open>
  \<open>encryptedData[k] = x\<close> on an object made by \<open>{}\<close>: the property is replaced where it
  is, or added last. The name \<open>__proto__\<close> is the accessor of \<open>Object.prototype\<close>, and an
  assignment to it adds no property.
\<close>

fun assign :: "(jsstring \<times> jsvalue) list \<Rightarrow> jsstring \<Rightarrow> jsvalue \<Rightarrow> (jsstring \<times> jsvalue) list" where
  "assign [] k v = [(k, v)]"
| "assign ((k', v') # kvs) k v = (if k' = k then (k, v) # kvs else (k', v') # assign kvs k v)"

definition set_property :: "(jsstring \<times> jsvalue) list \<Rightarrow> jsstring \<Rightarrow> jsvalue \<Rightarrow> (jsstring \<times> jsvalue) list" where
  "set_property obj k v = (if k = str ''__proto__'' then obj else assign obj k v)"

definition get_property :: "jsvalue \<Rightarrow> jsstring \<Rightarrow> jsvalue" where
  "get_property v k =
     (case v of JObject kvs \<Rightarrow> (case map_of kvs k of None \<Rightarrow> JUndefined | Some x \<Rightarrow> x)
      | _ \<Rightarrow> JUndefined)"

text \<open>
  A walk that encrypts draws random numbers, may raise and may not return: \<open>None\<close> is a
  run that does not return, \<open>Inl\<close> an error, \<open>Inr\<close> the result with the number of draws.
\<close>

type_synonym 'a run = "(error + 'a \<times> nat) option"

definition bind_run :: "'a run \<Rightarrow> ('a \<Rightarrow> nat \<Rightarrow> 'b run) \<Rightarrow> 'b run" where
  "bind_run m f =
     (case m of None \<Rightarrow> None | Some (Inl err) \<Rightarrow> Some (Inl err) | Some (Inr (x, p)) \<Rightarrow> f x p)"

definition return_run :: "'a \<Rightarrow> nat \<Rightarrow> 'a run" where
  "return_run x p = Some (Inr (x, p))"

text \<open>\<open>encrypt(s, {key})\<close> as a value: a string, or \<open>undefined\<close>.\<close>

definition encrypt_leaf :: "random \<Rightarrow> jsstring \<Rightarrow> jsstring \<Rightarrow> nat \<Rightarrow> jsvalue run" where
  "encrypt_leaf rnd s k p =
     bind_run
       (encrypt rnd s
          (Some \<lparr>firstRandomCharSet = None, secondRandomCharSet = None, key = Some k\<rparr>) p)
       (\<lambda>r. return_run (case r of None \<Rightarrow> JUndefined | Some c \<Rightarrow> JString c))"

text \<open>The measure under which the walkers' recursion ends.\<close>

fun weight :: "jsvalue \<Rightarrow> nat" where
  "weight (JArray xs) = 2 + sum_list (map weight xs)"
| "weight (JObject kvs) = 1 + sum_list (map (\<lambda>(k, v). weight v) kvs)"
| "weight v = 0"

definition weights :: "jsvalue list \<Rightarrow> nat" where
  "weights xs = sum_list (map weight xs)"

definition object_weight :: "jsvalue \<Rightarrow> nat" where
  "object_weight v =
     (case v of JArray xs \<Rightarrow> 2 * weight v | JObject kvs \<Rightarrow> 2 * weight v | JNull \<Rightarrow> 0
      | JUndefined \<Rightarrow> 0 | _ \<Rightarrow> 2)"

definition entry_weights :: "(jsstring \<times> jsvalue) list \<Rightarrow> nat" where
  "entry_weights kvs = sum_list (map (\<lambda>(k, v). weight v) kvs)"

text \<open>
  \<open>encryptObject(data, key)\<close>: \<open>encrypt_entries\<close> is its \<open>for (const [k, v] of
  Object.entries(data))\<close> loop with \<open>encryptedData\<close> as accumulator, \<open>encrypt_items\<close> the
  callback of \<open>v.map\<close> over the elements of an array, and \<open>encrypt_subItems\<close> the
  callback of \<open>item.map\<close> over the elements of an array in an array.
\<close>

function encryptObject :: "random \<Rightarrow> jsvalue \<Rightarrow> jsstring option \<Rightarrow> nat \<Rightarrow> jsvalue run"
  and encrypt_entries ::
    "random \<Rightarrow> (jsstring \<times> jsvalue) list \<Rightarrow> jsstring \<Rightarrow> (jsstring \<times> jsvalue) list \<Rightarrow> nat \<Rightarrow>
     (jsstring \<times> jsvalue) list run"
  and encrypt_items :: "random \<Rightarrow> jsvalue list \<Rightarrow> jsstring \<Rightarrow> nat \<Rightarrow> jsvalue list run"
  and encrypt_subItems :: "random \<Rightarrow> jsvalue list \<Rightarrow> jsstring \<Rightarrow> nat \<Rightarrow> jsvalue list run"
where
  "encryptObject rnd data k p =
     (let k = (case k of None \<Rightarrow> defaultKey | Some k \<Rightarrow> k)
      in case entries data of
           Inl err \<Rightarrow> Some (Inl err)
         | Inr kvs \<Rightarrow>
             bind_run (encrypt_entries rnd kvs k [] p)
               (\<lambda>encryptedData. return_run (JObject encryptedData)))"
| "encrypt_entries rnd [] k encryptedData p = return_run encryptedData p"
| "encrypt_entries rnd ((name, v) # rest) k encryptedData p =
     bind_run
       (case v of
          JString s \<Rightarrow> encrypt_leaf rnd (trim s) k p
        | JNumber n \<Rightarrow> encrypt_leaf rnd (trim (String_number n)) k p
        | JBoolean b \<Rightarrow> encrypt_leaf rnd (trim (String_boolean b)) k p
        | JArray items \<Rightarrow> bind_run (encrypt_items rnd items k p) (\<lambda>encryptedArray. return_run (JArray encryptedArray))
        | JObject kvs \<Rightarrow> encryptObject rnd v (Some k) p
        | JNull \<Rightarrow> encryptObject rnd v (Some k) p
        | _ \<Rightarrow> return_run v p)
       (\<lambda>x. encrypt_entries rnd rest k (set_property encryptedData name x))"
| "encrypt_items rnd [] k p = return_run [] p"
| "encrypt_items rnd (item # rest) k p =
     bind_run
       (case item of
          JString s \<Rightarrow> encrypt_leaf rnd s k p
        | JNumber n \<Rightarrow> encrypt_leaf rnd (String_number n) k p
        | JArray subItems \<Rightarrow> bind_run (encrypt_subItems rnd subItems k p) (\<lambda>r. return_run (JArray r))
        | JObject kvs \<Rightarrow> encryptObject rnd item (Some k) p
        | JNull \<Rightarrow> encryptObject rnd item (Some k) p
        | _ \<Rightarrow> return_run item p)
       (\<lambda>x p. bind_run (encrypt_items rnd rest k p) (\<lambda>xs. return_run (x # xs)))"
| "encrypt_subItems rnd [] k p = return_run [] p"
| "encrypt_subItems rnd (subItem # rest) k p =
     bind_run
       (case subItem of
          JString s \<Rightarrow> encrypt_leaf rnd s k p
        | JNumber n \<Rightarrow> encrypt_leaf rnd (String_number n) k p
        | JArray xs \<Rightarrow>
            bind_run (encryptObject rnd (JObject [(str ''arr'', subItem)]) (Some k) p)
              (\<lambda>r. return_run (get_property r (str ''arr'')))
        | JObject kvs \<Rightarrow> encryptObject rnd subItem (Some k) p
        | JNull \<Rightarrow> encryptObject rnd subItem (Some k) p
        | _ \<Rightarrow> return_run subItem p)
       (\<lambda>x p. bind_run (encrypt_subItems rnd rest k p) (\<lambda>xs. return_run (x # xs)))"
  by pat_completeness auto
termination
proof (relation "inv_image (less_than <*lex*> less_than)
    (case_sum
      (case_sum (\<lambda>(rnd, data, k, p). (object_weight data, 0))
        (\<lambda>(rnd, kvs, k, acc, p). (2 * entry_weights kvs + 1, length kvs)))
      (case_sum (\<lambda>(rnd, items, k, p). (2 * weights items + 1, length items))
        (\<lambda>(rnd, subItems, k, p). (2 * weights subItems + 3, length subItems))))",
    goal_cases)
  case 1
  show ?case by (intro wf_inv_image wf_lex_prod wf_less_than)
next
  have index: "entry_weights (index_from i xs) = weights xs" for i and xs :: "jsvalue list"
    by (induction xs arbitrary: i) (simp_all add: entry_weights_def weights_def)
  have chars: "entry_weights (index_from i (map (\<lambda>c. JString [c]) s)) = 0" for i s
    by (induction s arbitrary: i) (simp_all add: entry_weights_def)
  case (2 rnd data k p x kvs)
  then show ?case
    by (auto simp: entries_def object_weight_def index chars split: jsvalue.splits)
      (simp_all add: entry_weights_def weights_def)
qed (auto simp: object_weight_def entry_weights_def weights_def)

text \<open>
  \<open>decryptObject(data, key)\<close>, with the same loops. \<open>decrypt\<close> draws nothing and always
  returns or raises.
\<close>

definition bind_sum :: "error + 'a \<Rightarrow> ('a \<Rightarrow> error + 'b) \<Rightarrow> error + 'b" where
  "bind_sum m f = (case m of Inl err \<Rightarrow> Inl err | Inr x \<Rightarrow> f x)"

definition decrypt_leaf :: "jsstring \<Rightarrow> jsstring \<Rightarrow> error + jsvalue" where
  "decrypt_leaf s k = bind_sum (decrypt s (Some (Key k))) (\<lambda>d. Inr (JString d))"

function decryptObject :: "jsvalue \<Rightarrow> jsstring option \<Rightarrow> error + jsvalue"
  and decrypt_entries ::
    "(jsstring \<times> jsvalue) list \<Rightarrow> jsstring \<Rightarrow> (jsstring \<times> jsvalue) list \<Rightarrow>
     error + (jsstring \<times> jsvalue) list"
  and decrypt_items :: "jsvalue list \<Rightarrow> jsstring \<Rightarrow> error + jsvalue list"
  and decrypt_subItems :: "jsvalue list \<Rightarrow> jsstring \<Rightarrow> error + jsvalue list"
where
  "decryptObject data k =
     (let k = (case k of None \<Rightarrow> defaultKey | Some k \<Rightarrow> k)
      in case entries data of
           Inl err \<Rightarrow> Inl err
         | Inr kvs \<Rightarrow>
             bind_sum (decrypt_entries kvs k []) (\<lambda>decryptedData. Inr (JObject decryptedData)))"
| "decrypt_entries [] k decryptedData = Inr decryptedData"
| "decrypt_entries ((name, v) # rest) k decryptedData =
     bind_sum
       (case v of
          JString s \<Rightarrow> decrypt_leaf (trim s) k
        | JArray items \<Rightarrow> bind_sum (decrypt_items items k) (\<lambda>decryptedArray. Inr (JArray decryptedArray))
        | JObject kvs \<Rightarrow> decryptObject v (Some k)
        | JNull \<Rightarrow> decryptObject v (Some k)
        | _ \<Rightarrow> Inr v)
       (\<lambda>x. decrypt_entries rest k (set_property decryptedData name x))"
| "decrypt_items [] k = Inr []"
| "decrypt_items (item # rest) k =
     bind_sum
       (case item of
          JString s \<Rightarrow> decrypt_leaf s k
        | JArray subItems \<Rightarrow> bind_sum (decrypt_subItems subItems k) (\<lambda>r. Inr (JArray r))
        | JObject kvs \<Rightarrow> decryptObject item (Some k)
        | JNull \<Rightarrow> decryptObject item (Some k)
        | _ \<Rightarrow> Inr item)
       (\<lambda>x. bind_sum (decrypt_items rest k) (\<lambda>xs. Inr (x # xs)))"
| "decrypt_subItems [] k = Inr []"
| "decrypt_subItems (subItem # rest) k =
     bind_sum
       (case subItem of
          JString s \<Rightarrow> decrypt_leaf s k
        | JArray xs \<Rightarrow>
            bind_sum (decryptObject (JObject [(str ''arr'', subItem)]) (Some k))
              (\<lambda>r. Inr (get_property r (str ''arr'')))
        | JObject kvs \<Rightarrow> decryptObject subItem (Some k)
        | JNull \<Rightarrow> decryptObject subItem (Some k)
        | _ \<Rightarrow> Inr subItem)
       (\<lambda>x. bind_sum (decrypt_subItems rest k) (\<lambda>xs. Inr (x # xs)))"
  by pat_completeness auto
termination
proof (relation "inv_image (less_than <*lex*> less_than)
    (case_sum
      (case_sum (\<lambda>(data, k). (object_weight data, 0))
        (\<lambda>(kvs, k, acc). (2 * entry_weights kvs + 1, length kvs)))
      (case_sum (\<lambda>(items, k). (2 * weights items + 1, length items))
        (\<lambda>(subItems, k). (2 * weights subItems + 3, length subItems))))",
    goal_cases)
  case 1
  show ?case by (intro wf_inv_image wf_lex_prod wf_less_than)
next
  have index: "entry_weights (index_from i xs) = weights xs" for i and xs :: "jsvalue list"
    by (induction xs arbitrary: i) (simp_all add: entry_weights_def weights_def)
  have chars: "entry_weights (index_from i (map (\<lambda>c. JString [c]) s)) = 0" for i s
    by (induction s arbitrary: i) (simp_all add: entry_weights_def)
  case (2 data k x kvs)
  then show ?case
    by (auto simp: entries_def object_weight_def index chars split: jsvalue.splits)
      (simp_all add: entry_weights_def weights_def)
qed (auto simp: object_weight_def entry_weights_def weights_def)

section \<open>Notions the properties are stated with\<close>

text \<open>
  The shape of a value: the kind of every container, the names of an object's
  properties in their order and the length of every array; a leaf has no content.
\<close>

datatype shape = Leaf | Sequence "shape list" | Mapping "(jsstring \<times> shape) list"

fun shape_of :: "jsvalue \<Rightarrow> shape" where
  "shape_of (JArray xs) = Sequence (map shape_of xs)"
| "shape_of (JObject kvs) = Mapping (map (\<lambda>(k, v). (k, shape_of v)) kvs)"
| "shape_of v = Leaf"

text \<open>
  The lists that stand for objects: no property name twice, and none named
  \<open>__proto__\<close>, at any depth.
\<close>

fun plain_shape :: "shape \<Rightarrow> bool" where
  "plain_shape Leaf = True"
| "plain_shape (Sequence xs) = list_all plain_shape xs"
| "plain_shape (Mapping kvs) =
     (distinct (map fst kvs) \<and> str ''__proto__'' \<notin> set (map fst kvs)
      \<and> list_all (\<lambda>(k, s). plain_shape s) kvs)"

definition plain :: "jsvalue \<Rightarrow> bool" where
  "plain v = plain_shape (shape_of v)"

text \<open>
  \<open>String.prototype.toWellFormed\<close> and \<open>isWellFormed\<close>: every surrogate without its
  partner becomes U+FFFD; a string is well formed when it has none.
\<close>

fun toWellFormed :: "jsstring \<Rightarrow> jsstring" where
  "toWellFormed [] = []"
| "toWellFormed [c] = [if is_high c \<or> is_low c then 0xFFFD else c]"
| "toWellFormed (c # d # cs) =
     (if is_high c \<and> is_low d then c # d # toWellFormed cs
      else (if is_high c \<or> is_low c then 0xFFFD else c) # toWellFormed (d # cs))"

fun isWellFormed :: "jsstring \<Rightarrow> bool" where
  "isWellFormed [] = True"
| "isWellFormed [c] = (\<not> is_high c \<and> \<not> is_low c)"
| "isWellFormed (c # d # cs) =
     (if is_high c \<and> is_low d then isWellFormed cs
      else \<not> is_high c \<and> \<not> is_low c \<and> isWellFormed (d # cs))"

text \<open>The code points UTF-8 can carry: all but the surrogates, up to U+10FFFF.\<close>

definition is_scalar :: "nat \<Rightarrow> bool" where
  "is_scalar cp \<longleftrightarrow> cp < 0xD800 \<or> (0xE000 \<le> cp \<and> cp < 0x110000)"

text \<open>The string the codec hands to \<open>Buffer.from\<close>: every character moved by the key.\<close>

definition shifted :: "jsstring \<Rightarrow> jsstring \<Rightarrow> jsstring" where
  "shifted data k =
     map_index 0 (\<lambda>char index. shiftChar char ((keySum k + int index) mod 20)) data"

text \<open>Printable ASCII: the characters from the space to the tilde.\<close>

definition printable :: "jsstring \<Rightarrow> bool" where
  "printable s \<longleftrightarrow> list_all (\<lambda>c. 0x20 \<le> c \<and> c \<le> 0x7E) s"

text \<open>
  Random sequences: every draw in \<open>[0, 1)\<close>; a sequence that draws the same number for
  ever; and the sequences under which, from every point on, some later draw from the
  set is not \<open>'0'\<close>, so that the redraw of a leading \<open>'0'\<close> comes to an end.
\<close>

definition draws :: "random \<Rightarrow> bool" where
  "draws rnd \<longleftrightarrow> (\<forall>i. 0 \<le> rnd i \<and> rnd i < 1)"

definition steady :: "real \<Rightarrow> random" where
  "steady r i = r"

definition redraw_ends :: "random \<Rightarrow> jsstring \<Rightarrow> bool" where
  "redraw_ends rnd characterSet \<longleftrightarrow> (\<forall>p. \<exists>q. p \<le> q \<and> random_char rnd characterSet q \<noteq> str ''0'')"

text \<open>
  The sequence whose first draw is \<open>1/20\<close> and whose every other draw is \<open>0\<close>: the first
  padding of \<open>encrypt\<close> then is \<open>AA\<close>, and every later padding is \<open>A\<close>.
\<close>

definition two_tries :: random where
  "two_tries i = (if i = 0 then 1 / 20 else 0)"


abbreviation shapes :: "(jsstring \<times> jsvalue) list \<Rightarrow> (jsstring \<times> shape) list" where
  "shapes kvs \<equiv> map (\<lambda>(k, v). (k, shape_of v)) kvs"

text \<open>
  What the walkers get through. A value is \<open>encryptable\<close> when no \<open>null\<close> occurs in it
  and every string in it is printable ASCII; it is \<open>decryptable\<close> with a key when no
  \<open>null\<close> occurs in it and \<open>decrypt\<close> raises on none of its strings.
\<close>

fun encryptable :: "jsvalue \<Rightarrow> bool" where
  "encryptable (JString s) = printable s"
| "encryptable JNull = False"
| "encryptable (JArray xs) = list_all encryptable xs"
| "encryptable (JObject kvs) = list_all (\<lambda>(k, v). encryptable v) kvs"
| "encryptable v = True"

fun decryptable :: "jsstring \<Rightarrow> jsvalue \<Rightarrow> bool" where
  "decryptable k (JString s) = (case decrypt s (Some (Key k)) of Inl err \<Rightarrow> False | Inr d \<Rightarrow> True)"
| "decryptable k JNull = False"
| "decryptable k (JArray xs) = list_all (decryptable k) xs"
| "decryptable k (JObject kvs) = list_all (\<lambda>(n, v). decryptable k v) kvs"
| "decryptable k v = True"

text \<open>
  The example \<open>{a: "hi", b: [1, {c: true}]}\<close>, what \<open>encryptObject\<close> makes of it when every
  padding is \<open>A\<close>, and what \<open>decryptObject\<close> makes of that.
\<close>

definition example_object :: jsvalue where
  "example_object =
     JObject [(str ''a'', JString (str ''hi'')),
              (str ''b'', JArray [JNumber 1, JObject [(str ''c'', JBoolean True)]])]"

definition example_encrypted :: "jsstring \<Rightarrow> jsvalue" where
  "example_encrypted k =
     JObject [(str ''a'', JString (candidate (str ''hi'') (str ''A'') (str ''A'') (Some k))),
              (str ''b'', JArray [JString (candidate (str ''1'') (str ''A'') (str ''A'') (Some k)),
                 JObject [(str ''c'',
                   JString (candidate (str ''true'') (str ''A'') (str ''A'') (Some k)))]])]"

definition example_decrypted :: jsvalue where
  "example_decrypted =
     JObject [(str ''a'', JString (str ''hi'')),
              (str ''b'', JArray [JString (str ''1''), JObject [(str ''c'', JString (str ''true''))]])]"

section \<open>Properties of the Buffer model\<close>

lemma unat_u16: "unat (u16 n) = n mod 65536"
  by (simp add: u16_def unat_of_nat)

lemma unat_u8: "unat (u8 n) = n mod 256"
  by (simp add: u8_def unat_of_nat)

lemma unat_b64_char: "unat (b64_char i) = (if i < 26 then 65 + i
      else if i < 52 then 71 + i
      else if i < 62 then i - 4
      else if i = 62 then 43
      else 47)"
  by (simp add: b64_char_def unat_u16)

lemma unat_b64_char_less: "unat (b64_char i) < 128"
  by (auto simp: unat_b64_char)

lemma b64_char_low_byte: "unat (b64_char i) mod 256 = unat (b64_char i)"
  using unat_b64_char_less [of i] by simp

lemma unbase64_b64_char: "i < 64 \<Longrightarrow> unbase64 (b64_char i) = Some i"
  unfolding unbase64_def Let_def b64_char_low_byte by (auto simp add: unat_b64_char)

lemma b64_char_not_pad: "unat (b64_char i) mod 256 \<noteq> unat b64_pad"
  unfolding b64_char_low_byte by (auto simp: unat_b64_char b64_pad_def)

lemma sextets_b64_char: "i < 64 \<Longrightarrow> sextets (b64_char i # cs) = i # sextets cs"
  by (simp add: b64_char_not_pad unbase64_b64_char)

lemma u8_unat: "u8 (unat w) = w"
  by (simp add: u8_def)

lemma b64_arith1: "y < 256 \<Longrightarrow> x div 4 * 4 + (x mod 4 * 16 + y div 16) div 16 = (x::nat)"
  by simp

lemma b64_arith2: "y < 256 \<Longrightarrow> z < 256 \<Longrightarrow> (x mod 4 * 16 + y div 16) mod 16 * 16 + (y mod 16 * 4 + z div 64) div 4 = (y::nat)"
  by simp

lemma b64_arith3: "(y mod 16 * 4 + z div 64) mod 4 * 64 + z mod 64 = (z::nat)" if "z < 256"
  using that by simp

lemma b64_arith2': "y < 256 \<Longrightarrow> (x mod 4 * 16 + y div 16) mod 16 * 16 + (y mod 16 * 4) div 4 = (y::nat)"
  by simp

lemma unat_byte: "unat (a::byte) < 256"
  using unsigned_less [of a, where ?'a = nat] by simp

lemma b64_idx: "unat (a::byte) div 4 < 64" "unat (a::byte) mod 4 * 16 + unat (b::byte) div 16 < 64"
  "unat (a::byte) mod 4 * 16 < 64" "unat b mod 16 * 4 + unat (c::byte) div 64 < 64" "unat b mod 16 * 4 < 64" 
  "unat c mod 64 < 64"
  using unat_byte[of a] unat_byte[of b] unat_byte[of c] by simp_all

lemma sextets_pad: "sextets (b64_pad # cs) = []"
  by (simp add: b64_pad_def)

lemmas sextets_simps = sextets.simps(1) sextets_pad sextets_b64_char

lemma b64_decode_encode: "b64_decode (b64_encode bs) = bs"
  unfolding b64_decode_def
proof (induction bs rule: b64_encode.induct)
  case 1
  then show ?case by simp
next
  case (2 a)
  show ?case using unat_byte[of a]
    by (simp add: sextets_simps b64_idx u8_unat del: sextets.simps)
next
  case (3 a b)
  show ?case using unat_byte[of a] unat_byte[of b]
    by (simp add: sextets_simps b64_idx b64_arith1 b64_arith2' u8_unat del: sextets.simps)
next
  case (4 a b c bs)
  then show ?case using unat_byte[of a] unat_byte[of b] unat_byte[of c]
    by (simp add: sextets_simps b64_idx b64_arith1 b64_arith2 b64_arith3 u8_unat del: sextets.simps)
qed

lemma utf8_points_1: "unat b < 0x80 \<Longrightarrow> utf8_points (b # bs) = unat b # utf8_points bs"
  by simp

lemma utf8_points_2:
  "0xC2 \<le> unat b \<Longrightarrow> unat b \<le> 0xDF \<Longrightarrow> 0x80 \<le> unat c \<Longrightarrow> unat c \<le> 0xBF \<Longrightarrow>
   utf8_points (b # c # bs) = ((unat b - 0xC0) * 64 + (unat c - 0x80)) # utf8_points bs"
  by (simp add: in_range_def low6_def)

lemma utf8_points_3:
  "0xE0 \<le> unat b \<Longrightarrow> unat b \<le> 0xEF \<Longrightarrow>
   (if unat b = 0xE0 then 0xA0 else 0x80) \<le> unat c \<Longrightarrow>
   unat c \<le> (if unat b = 0xED then 0x9F else 0xBF) \<Longrightarrow>
   0x80 \<le> unat d \<Longrightarrow> unat d \<le> 0xBF \<Longrightarrow>
   utf8_points (b # c # d # bs) =
     ((unat b - 0xE0) * 4096 + (unat c - 0x80) * 64 + (unat d - 0x80)) # utf8_points bs"
  by (simp add: in_range_def low6_def)

lemma utf8_points_4:
  "0xF0 \<le> unat b \<Longrightarrow> unat b \<le> 0xF4 \<Longrightarrow>
   (if unat b = 0xF0 then 0x90 else 0x80) \<le> unat c \<Longrightarrow>
   unat c \<le> (if unat b = 0xF4 then 0x8F else 0xBF) \<Longrightarrow>
   0x80 \<le> unat d \<Longrightarrow> unat d \<le> 0xBF \<Longrightarrow> 0x80 \<le> unat e \<Longrightarrow> unat e \<le> 0xBF \<Longrightarrow>
   utf8_points (b # c # d # e # bs) =
     ((unat b - 0xF0) * 262144 + (unat c - 0x80) * 4096 + (unat d - 0x80) * 64 + (unat e - 0x80))
      # utf8_points bs"
  by (simp add: in_range_def low6_def)

lemma digits3: "cp div 4096 * 4096 + cp div 64 mod 64 * 64 + cp mod 64 = (cp::nat)"
  using mod_mult2_eq [of cp 64 64] div_mult_mod_eq [of cp 4096] by simp

lemma digits4: "cp div 262144 * 262144 + cp div 4096 mod 64 * 4096 + cp div 64 mod 64 * 64
      + cp mod 64 = (cp::nat)"
  using mod_mult2_eq [of cp 64 64] mod_mult2_eq [of cp 4096 64] div_mult_mod_eq [of cp 262144] by simp

lemma lo3: "cp div 4096 = 0 \<Longrightarrow> 0x800 \<le> cp \<Longrightarrow> 32 \<le> cp div 64 mod (64::nat)"
  by (simp add: div_eq_0_iff) 

lemma hi3: "cp div 4096 = 13 \<Longrightarrow> cp < 0xD800 \<Longrightarrow> cp div 64 mod 64 \<le> (31::nat)"
  using digits3 [of cp] by simp

lemma lo4: "cp div 262144 = 0 \<Longrightarrow> 0x10000 \<le> cp \<Longrightarrow> 16 \<le> cp div 4096 mod (64::nat)"
  by (simp add: div_eq_0_iff) 

lemma hi4: "cp div 262144 = 4 \<Longrightarrow> cp < 0x110000 \<Longrightarrow> cp div 4096 mod 64 \<le> (15::nat)"
  using digits4 [of cp] by simp

lemma mod64_le: "x mod 64 \<le> (63::nat)"
  using mod_less_divisor [of 64 x] by linarith

lemma hi3': "cp div 4096 = 13 \<Longrightarrow> cp < 0xD800 \<or> 0xE000 \<le> cp \<Longrightarrow> cp div 64 mod 64 \<le> (31::nat)"
  using digits3 [of cp] mod64_le [of cp] mod64_le [of "cp div 64"] by simp

lemma points_bytes_1: "cp < 0x80 \<Longrightarrow> utf8_points (utf8_bytes cp @ bs) = cp # utf8_points bs"
  by (simp add: utf8_bytes_def utf8_points_1 unat_u8 del: utf8_points.simps)

lemma points_bytes_2:
  assumes "0x80 \<le> cp" "cp < 0x800"
  shows "utf8_points (utf8_bytes cp @ bs) = cp # utf8_points bs"
proof -
  have b: "unat (u8 (0xC0 + cp div 64)) = 0xC0 + cp div 64" using assms by (simp add: unat_u8)
  have c: "unat (u8 (0x80 + cp mod 64)) = 0x80 + cp mod 64" by (simp add: unat_u8)
  have "utf8_points (u8 (0xC0 + cp div 64) # u8 (0x80 + cp mod 64) # bs)
      = ((unat (u8 (0xC0 + cp div 64)) - 0xC0) * 64 + (unat (u8 (0x80 + cp mod 64)) - 0x80)) # utf8_points bs"
    by (rule utf8_points_2) (use assms in \<open>simp_all add: b c\<close>)
  then show ?thesis using assms by (simp add: utf8_bytes_def b c del: utf8_points.simps)
qed

lemma points_bytes_3:
  assumes "0x800 \<le> cp" "cp < 0x10000" "cp < 0xD800 \<or> 0xE000 \<le> cp"
  shows "utf8_points (utf8_bytes cp @ bs) = cp # utf8_points bs"
proof -
  let ?b = "u8 (0xE0 + cp div 4096)" and ?c = "u8 (0x80 + cp div 64 mod 64)"
    and ?d = "u8 (0x80 + cp mod 64)"
  have b: "unat ?b = 0xE0 + cp div 4096" using assms by (simp add: unat_u8)
  have c: "unat ?c = 0x80 + cp div 64 mod 64" by (simp add: unat_u8)
  have d: "unat ?d = 0x80 + cp mod 64" by (simp add: unat_u8)
  have lo: "cp div 4096 = 0 \<Longrightarrow> 32 \<le> cp div 64 mod 64" using assms lo3 by simp
  have hi: "cp div 4096 = 13 \<Longrightarrow> cp div 64 mod 64 \<le> 31" using assms hi3' [of cp] by simp
  have "utf8_points (?b # ?c # ?d # bs)
      = ((unat ?b - 0xE0) * 4096 + (unat ?c - 0x80) * 64 + (unat ?d - 0x80)) # utf8_points bs"
    by (rule utf8_points_3) (use assms lo hi in \<open>simp_all add: b c d mod64_le\<close>)
  then show ?thesis using assms digits3 [of cp] by (simp add: utf8_bytes_def b c d del: utf8_points.simps)
qed

lemma points_bytes_4:
  assumes "0x10000 \<le> cp" "cp < 0x110000"
  shows "utf8_points (utf8_bytes cp @ bs) = cp # utf8_points bs"
proof -
  let ?b = "u8 (0xF0 + cp div 262144)" and ?c = "u8 (0x80 + cp div 4096 mod 64)"
    and ?d = "u8 (0x80 + cp div 64 mod 64)" and ?e = "u8 (0x80 + cp mod 64)"
  have top: "cp div 262144 \<le> 4" using assms by simp
  have b: "unat ?b = 0xF0 + cp div 262144" using top by (simp add: unat_u8)
  have c: "unat ?c = 0x80 + cp div 4096 mod 64" by (simp add: unat_u8)
  have d: "unat ?d = 0x80 + cp div 64 mod 64" by (simp add: unat_u8)
  have e: "unat ?e = 0x80 + cp mod 64" by (simp add: unat_u8)
  have lo: "cp div 262144 = 0 \<Longrightarrow> 16 \<le> cp div 4096 mod 64" using assms lo4 by simp
  have hi: "cp div 262144 = 4 \<Longrightarrow> cp div 4096 mod 64 \<le> 15" using assms hi4 by simp
  have "utf8_points (?b # ?c # ?d # ?e # bs)
      = ((unat ?b - 0xF0) * 262144 + (unat ?c - 0x80) * 4096 + (unat ?d - 0x80) * 64
         + (unat ?e - 0x80)) # utf8_points bs"
    by (rule utf8_points_4) (use assms lo hi top in \<open>simp_all add: b c d e mod64_le\<close>)
  then show ?thesis using assms digits4 [of cp] by (simp add: utf8_bytes_def b c d e del: utf8_points.simps)
qed

lemma points_bytes: "is_scalar cp \<Longrightarrow> utf8_points (utf8_bytes cp @ bs) = cp # utf8_points bs"
  using points_bytes_1 [of cp bs] points_bytes_2 [of cp bs] points_bytes_3 [of cp bs]
    points_bytes_4 [of cp bs]
  unfolding is_scalar_def by linarith

lemma unat_unit: "unat (c::16 word) < 65536"
  using unsigned_less [of c, where ?'a = nat] by simp

lemma u16_unat: "u16 (unat c) = c"
  by (simp add: u16_def)

lemma is_high_nat: "is_high c \<longleftrightarrow> 0xD800 \<le> unat c \<and> unat c \<le> 0xDBFF"
  by (simp add: is_high_def word_le_nat_alt)

lemma is_low_nat: "is_low c \<longleftrightarrow> 0xDC00 \<le> unat c \<and> unat c \<le> 0xDFFF"
  by (simp add: is_low_def word_le_nat_alt)

lemma is_scalar_scalar: "is_scalar (scalar c)"
  using unat_unit [of c] by (auto simp: is_scalar_def scalar_def is_high_nat is_low_nat)

lemma pair_point:
  assumes "is_high c" "is_low d"
  shows "is_scalar (0x10000 + (unat c - 0xD800) * 0x400 + (unat d - 0xDC00))"
    and "utf16_units (0x10000 + (unat c - 0xD800) * 0x400 + (unat d - 0xDC00)) = [c, d]"
proof -
  define h l where "h = unat c - 0xD800" and "l = unat d - 0xDC00"
  have h: "unat c = 0xD800 + h" "h < 0x400" and l: "unat d = 0xDC00 + l" "l < 0x400"
    using assms unfolding is_high_nat is_low_nat h_def l_def by arith+
  show "is_scalar (0x10000 + (unat c - 0xD800) * 0x400 + (unat d - 0xDC00))"
    using h l by (simp add: is_scalar_def)
  have "u16 (0xD800 + h) = c" "u16 (0xDC00 + l) = d"
    using h l u16_unat [of c] u16_unat [of d] by simp_all
  then show "utf16_units (0x10000 + (unat c - 0xD800) * 0x400 + (unat d - 0xDC00)) = [c, d]"
    using h l by (simp add: utf16_units_def)
qed

lemma units_scalar: "utf16_units (scalar c) = [if is_high c \<or> is_low c then 0xFFFD else c]"
  using unat_unit [of c] by (simp add: utf16_units_def scalar_def u16_unat) (simp add: u16_def)

lemma code_points_scalar: "cp \<in> set (code_points s) \<Longrightarrow> is_scalar cp"
  by (induction s arbitrary: cp rule: code_points.induct)
    (auto simp: is_scalar_scalar pair_point(1) split: if_splits)

lemma utf8_points_concat:
  "(\<And>cp. cp \<in> set cps \<Longrightarrow> is_scalar cp) \<Longrightarrow> utf8_points (concat (map utf8_bytes cps)) = cps"
  by (induction cps) (simp_all add: points_bytes del: utf8_points.simps(2))

lemma utf8_points_encode: "utf8_points (utf8_encode s) = code_points s"
  unfolding utf8_encode_def by (rule utf8_points_concat) (rule code_points_scalar)

lemma units_code_points: "concat (map utf16_units (code_points s)) = toWellFormed s"
  by (induction s rule: code_points.induct) (simp_all add: units_scalar pair_point(2))

lemma utf8_decode_encode: "utf8_decode (utf8_encode s) = toWellFormed s"
  by (simp add: utf8_decode_def utf8_points_encode units_code_points)

lemma length_toWellFormed: "length (toWellFormed s) = length s"
  by (induction s rule: toWellFormed.induct) simp_all

lemma surrogate_not_FFFD: "is_high c \<or> is_low c \<Longrightarrow> c \<noteq> 0xFFFD"
  by (auto simp: is_high_nat is_low_nat)

lemma toWellFormed_eq_iff: "toWellFormed s = s \<longleftrightarrow> isWellFormed s"
  by (induction s rule: toWellFormed.induct) (auto simp: surrogate_not_FFFD)

section \<open>Properties of the codec\<close>

lemma length_map_index: "length (map_index i f s) = length s"
  by (induction s arbitrary: i) auto

lemma nth_map_index: "j < length s \<Longrightarrow> map_index i f s ! j = f (s ! j) (i + j)"
proof (induction s arbitrary: i j)
  case Nil then show ?case by simp
next
  case (Cons c cs) then show ?case by (cases j) auto
qed

lemma unshift_shift: "unshiftChar (shiftChar c n) n = c"
  by (simp add: unshiftChar_def shiftChar_def fromCharCode_def charCode_def)

lemma shift_unshift: "shiftChar (unshiftChar c n) n = c"
  by (simp add: unshiftChar_def shiftChar_def fromCharCode_def charCode_def)

lemma unshift_map_index:
  "map_index i (\<lambda>c j. unshiftChar c (g j)) (map_index i (\<lambda>c j. shiftChar c (g j)) s) = s"
  by (induction s arbitrary: i) (auto simp: unshift_shift)

lemma shift_map_index:
  "map_index i (\<lambda>c j. shiftChar c (g j)) (map_index i (\<lambda>c j. unshiftChar c (g j)) s) = s"
  by (induction s arbitrary: i) (auto simp: shift_unshift)

lemma toWellFormed_ascii: "\<forall>c\<in>set s. unat c < 0x80 \<Longrightarrow> toWellFormed s = s"
  by (induction s rule: toWellFormed.induct) (auto simp: is_high_nat is_low_nat)

lemma b64_encode_ascii: "c \<in> set (b64_encode bs) \<Longrightarrow> unat c < 0x80"
  by (induction bs rule: b64_encode.induct) (auto simp: unat_b64_char b64_pad_def)

lemma toWellFormed_b64: "toWellFormed (b64_encode bs) = b64_encode bs"
  by (rule toWellFormed_ascii) (simp add: b64_encode_ascii)

lemma base64Decode_base64Encode:
  "base64Decode (base64Encode s k) k =
     map_index 0 (\<lambda>char index. unshiftChar char ((keySum k + int index) mod 20))
       (toWellFormed (shifted s k))"
  by (simp add: base64Decode_def base64Encode_def Let_def unshift_map_index toWellFormed_b64
      b64_decode_encode utf8_decode_encode shifted_def)

lemma keySum_examples:
  "keySum (str ''k'') = 107" "keySum (str ''ab'') = 195" "keySum (str ''ba'') = 195"
  by (simp_all add: keySum_def str_def charCode_def)

text \<open>
  C3, as amended. \<open>base64Decode(base64Encode(s, k), k)\<close> is \<open>s\<close> exactly when the string
  that \<open>base64Encode\<close> passes to \<open>Buffer.from\<close>, \<open>s\<close> with every character moved by the
  key, has no surrogate without its partner. (A lone surrogate is encoded as U+FFFD and
  does not come back.)
\<close>

theorem codec_inverse:
  "base64Decode (base64Encode s k) k = s \<longleftrightarrow> isWellFormed (shifted s k)"
proof -
  let ?un = "map_index 0 (\<lambda>char index. unshiftChar char ((keySum k + int index) mod 20))"
  let ?sh = "map_index 0 (\<lambda>char index. shiftChar char ((keySum k + int index) mod 20))"
  have "?un (toWellFormed (?sh s)) = s \<longleftrightarrow> toWellFormed (?sh s) = ?sh s"
  proof
    assume "?un (toWellFormed (?sh s)) = s"
    then have "?sh (?un (toWellFormed (?sh s))) = ?sh s" by simp
    then show "toWellFormed (?sh s) = ?sh s" by (simp only: shift_map_index)
  next
    assume "toWellFormed (?sh s) = ?sh s"
    then show "?un (toWellFormed (?sh s)) = s" by (simp add: unshift_map_index)
  qed
  then show ?thesis
    by (simp add: base64Decode_base64Encode shifted_def toWellFormed_eq_iff)
qed

theorem codec_inverse_witness:
  "isWellFormed (shifted (str ''hi'') (str ''k''))
   \<and> base64Decode (base64Encode (str ''hi'') (str ''k'')) (str ''k'') = str ''hi''"
proof -
  have hi: "str ''hi'' = [104, 105]" by (simp add: str_def)
  have "isWellFormed (shifted (str ''hi'') (str ''k''))"
    by (simp add: hi shifted_def keySum_examples shiftChar_def fromCharCode_def charCode_def
        is_high_def is_low_def)
  then show ?thesis using codec_inverse [of "str ''hi''" "str ''k''"] by simp
qed

text \<open>
  C3 as stated fails: the one-character string U+D7FF under the key \<open>k\<close> (key sum 107,
  shift 7) is moved to the lone surrogate U+D806, and decoding gives U+FFF6.
\<close>

theorem codec_inverse_counterexample:
  "base64Decode (base64Encode [0xD7FF] (str ''k'')) (str ''k'') \<noteq> [0xD7FF]"
  by (simp add: base64Decode_base64Encode shifted_def keySum_examples shiftChar_def
      unshiftChar_def fromCharCode_def charCode_def is_high_def is_low_def)

text \<open>
  C9. Two keys whose character codes have the same sum encode every string alike and
  decode every string alike.
\<close>

theorem key_sum_only:
  "keySum k1 = keySum k2 \<Longrightarrow>
   base64Encode d k1 = base64Encode d k2 \<and> base64Decode d k1 = base64Decode d k2"
  by (simp add: base64Encode_def base64Decode_def)

theorem key_sum_only_witness:
  "keySum (str ''ab'') = keySum (str ''ba'')
   \<and> base64Encode (str ''hi'') (str ''ab'') = base64Encode (str ''hi'') (str ''ba'')
   \<and> base64Decode (str ''hi'') (str ''ab'') = base64Decode (str ''hi'') (str ''ba'')"
proof -
  have h: "keySum (str ''ab'') = keySum (str ''ba'')" by (simp add: keySum_examples)
  show ?thesis using h key_sum_only [OF h, of "str ''hi''"] by simp
qed

section \<open>Properties of the token generator\<close>

lemma do_while_negative: "len < 0 \<Longrightarrow> do_while rnd cs len token p = None"
proof (rule ccontr)
  assume neg: "len < 0" and "do_while rnd cs len token p \<noteq> None"
  then obtain y where y: "do_while rnd cs len token p = Some y" by auto
  have "0 \<le> len"
    by (rule do_while.raw_induct [where P = "\<lambda>rnd cs len token p y. 0 \<le> len", OF _ y])
      (auto split: prod.splits if_splits)
  with neg show False by simp
qed

lemma random_char_single:
  assumes "draws rnd" "cs \<noteq> []"
  shows "\<exists>c. random_char rnd cs p = [c] \<and> c \<in> set cs"
proof -
  have r: "0 \<le> rnd p" "rnd p < 1" using assms(1) by (simp_all add: draws_def)
  have len: "0 < real (length cs)" using assms(2) by simp
  have "0 \<le> rnd p * real (length cs)" using r by simp
  then have lo: "0 \<le> \<lfloor>rnd p * real (length cs)\<rfloor>" by simp
  have "rnd p * real (length cs) < real (length cs)" using r len by simp
  then have hi: "\<lfloor>rnd p * real (length cs)\<rfloor> < int (length cs)" by (simp add: floor_less_iff)
  define i where "i = \<lfloor>rnd p * real (length cs)\<rfloor>"
  have i: "0 \<le> i" "i < int (length cs)" using lo hi by (simp_all add: i_def)
  then have "nat i < length cs" by linarith
  then have "cs ! nat i \<in> set cs" by (rule nth_mem)
  moreover have "random_char rnd cs p = [cs ! nat i]"
    using i by (simp add: random_char_def charAt_def i_def)
  ultimately show ?thesis by blast
qed

lemma for_loop_result:
  assumes "draws rnd" "cs \<noteq> []"
  shows "\<exists>chars. for_loop rnd cs n token p = (token @ chars, p + n) \<and> length chars = n
           \<and> set chars \<subseteq> set cs"
proof (induction n arbitrary: token p)
  case 0
  then show ?case by simp
next
  case (Suc n)
  obtain c where c: "random_char rnd cs p = [c]" "c \<in> set cs"
    using random_char_single [OF assms] by blast
  obtain chars where "for_loop rnd cs n (token @ [c]) (Suc p) = ((token @ [c]) @ chars, Suc p + n)"
      "length chars = n" "set chars \<subseteq> set cs"
    using Suc.IH by blast
  then show ?case using c by (intro exI [of _ "c # chars"]) simp
qed

lemma do_while_returns:
  assumes "int (length token) = len" "p \<le> q" "random_char rnd cs q \<noteq> str ''0''"
  shows "\<exists>y. do_while rnd cs len token p = Some y"
  using assms
proof (induction "q - p" arbitrary: p)
  case 0
  then have "q = p" by simp
  with 0 show ?case
    by (subst do_while.simps) (auto simp: do_body_def Let_def starts_with_zero_def split_def split: list.splits)
next
  case (Suc n)
  then have "n = q - Suc p" "Suc p \<le> q" by simp_all
  then obtain y where "do_while rnd cs len token (Suc p) = Some y"
    using Suc by blast
  then show ?case using Suc.prems(1)
    by (subst do_while.simps) (auto simp: do_body_def Let_def split: list.splits)
qed


lemma do_while_result:
  assumes "do_while rnd cs len token p = Some y" "draws rnd" "cs \<noteq> []" "int (length token) = len"
  shows "length (fst y) = length token \<and> take 1 (fst y) \<noteq> str ''0'' \<and> set (fst y) \<subseteq> set token \<union> set cs"
proof -
  have "draws rnd \<longrightarrow> cs \<noteq> [] \<longrightarrow> int (length token) = len \<longrightarrow>
      length (fst y) = length token \<and> take 1 (fst y) \<noteq> str ''0'' \<and> set (fst y) \<subseteq> set token \<union> set cs"
  proof (rule do_while.raw_induct [where P = "\<lambda>rnd cs len token p y. draws rnd \<longrightarrow> cs \<noteq> [] \<longrightarrow>
      int (length token) = len \<longrightarrow> length (fst y) = length token \<and> take 1 (fst y) \<noteq> str ''0''
        \<and> set (fst y) \<subseteq> set token \<union> set cs", OF _ assms(1)], goal_cases)
    case (1 f rnd cs len token p y)
    show ?case
    proof (intro impI)
      assume d: "draws rnd" "cs \<noteq> []" "int (length token) = len"
      obtain c where c: "random_char rnd cs p = [c]" "c \<in> set cs"
        using random_char_single [OF d(1,2)] by blast
      show "length (fst y) = length token \<and> take 1 (fst y) \<noteq> str ''0'' \<and> set (fst y) \<subseteq> set token \<union> set cs"
      proof (cases token)
        case Nil
        with 1(2) d show ?thesis
          by (auto simp: do_body_def Let_def split_def starts_with_zero_def str_def split: if_splits)
      next
        case (Cons a as)
        show ?thesis
        proof (cases "a = 0x30")
          case False
          with 1(2) d Cons show ?thesis
            by (auto simp: do_body_def Let_def split_def starts_with_zero_def str_def split: if_splits)
        next
          case True
          show ?thesis
          proof (cases "c = 0x30")
            case False
            with 1(2) d Cons True c show ?thesis
              by (auto simp: do_body_def Let_def split_def starts_with_zero_def str_def split: if_splits)
          next
            case c0: True
            with 1(2) d Cons True c have "f rnd cs len token (Suc p) = Some y"
              by (auto simp: do_body_def Let_def split_def starts_with_zero_def str_def split: if_splits)
            from 1(1) [OF this] d show ?thesis by simp
          qed
        qed
      qed
    qed
  qed
  with assms show ?thesis by simp
qed

lemma do_while_stuck:
  assumes "starts_with_zero (split token)" "\<forall>q\<ge>p. random_char rnd cs q = str ''0''"
    "int (length token) = len"
  shows "do_while rnd cs len token p = None"
proof (rule ccontr)
  assume "do_while rnd cs len token p \<noteq> None"
  then obtain y where y: "do_while rnd cs len token p = Some y" by auto
  have "\<not> (starts_with_zero (split token) \<and> (\<forall>q\<ge>p. random_char rnd cs q = str ''0'')
      \<and> int (length token) = len)"
  proof (rule do_while.raw_induct [where P = "\<lambda>rnd cs len token p y.
      \<not> (starts_with_zero (split token) \<and> (\<forall>q\<ge>p. random_char rnd cs q = str ''0'')
      \<and> int (length token) = len)", OF _ y], goal_cases)
    case (1 f rnd cs len token p y)
    show ?case
    proof
      assume a: "starts_with_zero (split token) \<and> (\<forall>q\<ge>p. random_char rnd cs q = str ''0'')
        \<and> int (length token) = len"
      then have z: "random_char rnd cs p = str ''0''" by simp
      from a obtain c cs' where t: "token = c # cs'"
        by (cases token) (auto simp: starts_with_zero_def split_def)
      have "f rnd cs len token (Suc p) = Some y"
        using 1(2) a z t
        by (auto simp: do_body_def Let_def split_def starts_with_zero_def split: if_splits)
      from 1(1) [OF this] a show False by auto
    qed
  qed
  with assms show False by simp
qed

lemma characterSets_nonempty: "characterSets t \<noteq> []"
  by (cases t) (simp_all add: str_def)

lemma resolve_set_nonempty: "resolve_set t \<noteq> []"
  by (simp add: resolve_set_def characterSets_nonempty del: characterSets.simps split: option.splits)

lemma tokenGenerator_zero: "tokenGenerator rnd 0 t p = Some ([], p)"
  by (simp add: tokenGenerator_def do_while.simps do_body_def split_def starts_with_zero_def)

lemma tokenGenerator_negative: "len < 0 \<Longrightarrow> tokenGenerator rnd len t p = None"
  by (simp add: tokenGenerator_def do_while_negative split: prod.splits)

lemma tokenGenerator_returns:
  assumes "0 \<le> n" "draws rnd" "redraw_ends rnd (resolve_set t)"
  shows "\<exists>token p'. tokenGenerator rnd n t p = Some (token, p') \<and> int (length token) = n
           \<and> take 1 token \<noteq> str ''0'' \<and> set token \<subseteq> set (resolve_set t)"
proof -
  let ?cs = "resolve_set t"
  obtain chars where f: "for_loop rnd ?cs (nat n) [] p = ([] @ chars, p + nat n)"
      "length chars = nat n" "set chars \<subseteq> set ?cs"
    using for_loop_result [OF assms(2) resolve_set_nonempty] by blast
  have len: "int (length chars) = n" using f(2) assms(1) by simp
  obtain q where q: "p + nat n \<le> q" "random_char rnd ?cs q \<noteq> str ''0''"
    using assms(3) unfolding redraw_ends_def by blast
  obtain y where y: "do_while rnd ?cs n chars (p + nat n) = Some y"
    using do_while_returns [OF len q] by blast
  have "length (fst y) = length chars \<and> take 1 (fst y) \<noteq> str ''0''
      \<and> set (fst y) \<subseteq> set chars \<union> set ?cs"
    using do_while_result [OF y assms(2) resolve_set_nonempty len] .
  then show ?thesis using f y len by (cases y) (auto simp: tokenGenerator_def)
qed

lemma draws_steady: "0 \<le> r \<Longrightarrow> r < 1 \<Longrightarrow> draws (steady r)"
  by (simp add: draws_def steady_def)

lemma random_char_steady_0: "random_char (steady 0) (resolve_set None) q = str ''A''"
  by (simp add: random_char_def steady_def resolve_set_def charAt_def str_def)

lemma redraw_ends_steady_0: "redraw_ends (steady 0) (resolve_set None)"
  unfolding redraw_ends_def
proof
  fix p
  have "random_char (steady 0) (resolve_set None) p \<noteq> str ''0''"
    by (simp add: random_char_steady_0 str_def)
  then show "\<exists>q\<ge>p. random_char (steady 0) (resolve_set None) q \<noteq> str ''0''" by blast
qed

text \<open>
  C6, as amended. \<open>tokenGenerator\<close> raises no error: for the length 0 it returns the empty
  string, for a negative length it never returns. For a length \<open>n\<close> of at least 1 and any
  set, named or omitted, under draws in \<open>[0, 1)\<close> for which the redraw of a leading
  \<open>'0'\<close> ends, it returns a string of length \<open>n\<close> that does not start with \<open>'0'\<close>.
\<close>

theorem token_shape:
  assumes "draws rnd" "redraw_ends rnd (resolve_set type')"
  shows "tokenGenerator rnd 0 type' p = Some ([], p)
     \<and> (n < 0 \<longrightarrow> tokenGenerator rnd n type' p = None)
     \<and> (1 \<le> n \<longrightarrow> (\<exists>token p'. tokenGenerator rnd n type' p = Some (token, p')
           \<and> int (length token) = n \<and> take 1 token \<noteq> str ''0''))"
proof (intro conjI impI)
  show "tokenGenerator rnd 0 type' p = Some ([], p)" by (rule tokenGenerator_zero)
  show "tokenGenerator rnd n type' p = None" if "n < 0" using that by (rule tokenGenerator_negative)
  show "\<exists>token p'. tokenGenerator rnd n type' p = Some (token, p') \<and> int (length token) = n
      \<and> take 1 token \<noteq> str ''0''" if "1 \<le> n"
    using tokenGenerator_returns [OF _ assms, of n p] that by auto
qed

theorem token_shape_witness:
  "draws (steady 0) \<and> redraw_ends (steady 0) (resolve_set None)
   \<and> (\<exists>token p'. tokenGenerator (steady 0) 3 None 0 = Some (token, p')
        \<and> int (length token) = 3 \<and> take 1 token \<noteq> str ''0'')"
proof -
  have d: "draws (steady 0)" by (simp add: draws_steady)
  show ?thesis using d redraw_ends_steady_0 token_shape [OF d redraw_ends_steady_0, of 0 3] by simp
qed

lemma random_char_steady_set1: "random_char (steady 0) (resolve_set (Some set1)) q = str ''0''"
  by (simp add: random_char_def steady_def resolve_set_def charAt_def str_def)

text \<open>
  C6 as stated fails twice: for the length 0 the empty string is returned, and no error
  is raised; and when every draw from \<open>set1\<close> is \<open>'0'\<close>, the call for one character
  never returns.
\<close>

theorem token_shape_counterexample:
  "tokenGenerator (steady 0) 0 None 0 = Some ([], 0)
   \<and> tokenGenerator (steady 0) 1 (Some set1) 0 = None"
proof
  show "tokenGenerator (steady 0) 0 None 0 = Some ([], 0)" by (rule tokenGenerator_zero)
  have "for_loop (steady 0) (resolve_set (Some set1)) (nat 1) [] 0 = (str ''0'', 1)"
    using random_char_steady_set1 [of 0] by (simp add: str_def)
  moreover have "do_while (steady 0) (resolve_set (Some set1)) 1 (str ''0'') 1 = None"
    by (rule do_while_stuck) (simp_all add: random_char_steady_set1 split_def starts_with_zero_def str_def)
  ultimately show "tokenGenerator (steady 0) 1 (Some set1) 0 = None"
    by (simp add: tokenGenerator_def)
qed

text \<open>
  C10. \<open>tokenGenerator(0, set)\<close> returns the empty string, having drawn nothing; for every
  negative length the call never returns.
\<close>

theorem token_zero_negative:
  "tokenGenerator rnd 0 type' p = Some ([], p)
   \<and> (len < 0 \<longrightarrow> tokenGenerator rnd len type' p = None)"
  by (simp add: tokenGenerator_zero tokenGenerator_negative)

theorem token_zero_negative_witness:
  "tokenGenerator (steady 0) 0 None 0 = Some ([], 0)
   \<and> (- 1 :: int) < 0 \<and> tokenGenerator (steady 0) (- 1) None 0 = None"
  using token_zero_negative [of "steady 0" None 0 "- 1"] by simp

section \<open>Properties of encrypt and decrypt\<close>

lemma base64Decode_base64Encode2:
  "base64Decode (base64Encode s k) k' =
     map_index 0 (\<lambda>char index. unshiftChar char ((keySum k' + int index) mod 20))
       (toWellFormed (shifted s k))"
  by (simp add: base64Decode_def base64Encode_def Let_def unshift_map_index toWellFormed_b64
      b64_decode_encode utf8_decode_encode shifted_def)

lemma not_ws: "33 \<le> unat c \<Longrightarrow> unat c < 127 \<Longrightarrow> \<not> is_ws c"
  by (auto simp: is_ws_def word_le_nat_alt)

lemma trim_id: "\<forall>c\<in>set s. \<not> is_ws c \<Longrightarrow> trim s = s"
proof -
  assume a: "\<forall>c\<in>set s. \<not> is_ws c"
  have d: "dropWhile is_ws t = t" if "\<forall>c\<in>set t. \<not> is_ws c" for t
    using that by (cases t) simp_all
  show ?thesis using a by (simp add: trim_def d)
qed

lemma set_map_index: "c' \<in> set (map_index i f s) \<Longrightarrow> \<exists>c\<in>set s. \<exists>j. c' = f c j"
  by (induction s arbitrary: i) auto

lemma unat_shiftChar: "0 \<le> m \<Longrightarrow> unat c + nat m < 65536 \<Longrightarrow> unat (shiftChar c m) = unat c + nat m"
proof -
  assume m: "0 \<le> m" and b: "unat c + nat m < 65536"
  have u: "uint c = int (unat c)" by simp
  have r: "0 \<le> uint c + m" "uint c + m < 65536" using m b unfolding u by linarith+
  have "uint (shiftChar c m) = (uint c + m) mod 65536"
    by (simp only: shiftChar_def fromCharCode_def charCode_def uint_word_of_int) simp
  also have "\<dots> = uint c + m" using r by simp
  finally have "unat (shiftChar c m) = nat (uint c + m)" by (simp only: unat_eq_nat_uint)
  moreover have "nat (uint c + m) = unat c + nat m" using m by (simp add: nat_add_distrib)
  ultimately show ?thesis by simp
qed

lemma b64_encode_range: "c \<in> set (b64_encode bs) \<Longrightarrow> 43 \<le> unat c \<and> unat c \<le> 122"
  by (induction bs rule: b64_encode.induct) (auto simp: unat_b64_char b64_pad_def)

lemma base64Encode_no_ws: "c \<in> set (base64Encode s k) \<Longrightarrow> \<not> is_ws c"
proof -
  assume "c \<in> set (base64Encode s k)"
  then obtain b j where b: "b \<in> set (b64_encode (utf8_encode (b64_encode (utf8_encode (shifted s k)))))"
    and c: "c = shiftChar b (int j mod 5)"
    unfolding base64Encode_def Let_def shifted_def by (blast dest: set_map_index)
  have r: "43 \<le> unat b \<and> unat b \<le> 122" using b by (rule b64_encode_range)
  have m: "0 \<le> int j mod 5" "nat (int j mod 5) < 5" by simp_all
  have "unat c = unat b + nat (int j mod 5)"
    unfolding c using r m by (intro unat_shiftChar) simp_all
  then show ?thesis using r m by (intro not_ws) simp_all
qed

lemma trim_base64Encode: "trim (base64Encode s k) = base64Encode s k"
  by (rule trim_id) (simp add: base64Encode_no_ws)

lemma isWellFormed_small: "\<forall>c\<in>set s. unat c < 0xD800 \<Longrightarrow> isWellFormed s"
  by (induction s rule: isWellFormed.induct) (auto simp: is_high_nat is_low_nat)

lemma shifted_small:
  assumes "\<forall>c\<in>set s. unat c < 0xD000"
  shows "\<forall>c\<in>set (shifted s k). unat c < 0xD800"
proof
  fix c' assume "c' \<in> set (shifted s k)"
  then obtain c j where c: "c \<in> set s" and c': "c' = shiftChar c ((keySum k + int j) mod 20)"
    unfolding shifted_def by (blast dest: set_map_index)
  let ?m = "(keySum k + int j) mod 20"
  have m: "0 \<le> ?m" "?m < 20" by simp_all
  have s: "unat c < 0xD000" using assms c by blast
  have "unat c' = unat c + nat ?m" unfolding c' using m s by (intro unat_shiftChar) linarith+
  then show "unat c' < 0xD800" using m s by linarith
qed

lemma codec_roundtrip_small:
  assumes "\<forall>c\<in>set s. unat c < 0xD000"
  shows "base64Decode (base64Encode s k) k = s"
proof -
  have "isWellFormed (shifted s k)" using shifted_small [OF assms] by (rule isWellFormed_small)
  then have "toWellFormed (shifted s k) = shifted s k" by (simp add: toWellFormed_eq_iff)
  then show ?thesis by (simp add: base64Decode_base64Encode shifted_def unshift_map_index)
qed

lemma down_up: "fromCharCode (charCode (fromCharCode (charCode c + 80 - 70)) - 80 + 70) = c"
  by (simp add: fromCharCode_def charCode_def)

lemma unat_up: "unat c < 0xC000 \<Longrightarrow> unat (fromCharCode (charCode c + 80 - 70)) = unat c + 10"
proof -
  assume c: "unat c < 0xC000"
  have "fromCharCode (charCode c + 80 - 70) = shiftChar c 10"
    by (simp add: shiftChar_def add.commute)
  then show ?thesis using unat_shiftChar [of 10 c] c by simp
qed

lemma unat_marker: "n < 0xC000 \<Longrightarrow> unat (fromCharCode (int n + 85)) = n + 85"
proof -
  assume n: "n < 0xC000"
  have "fromCharCode (int n + 85) = u16 (n + 85)" by (simp add: fromCharCode_def u16_def)
  then show ?thesis using n by (simp add: unat_u16)
qed

lemma charCode_marker: "n < 0xC000 \<Longrightarrow> charCode (fromCharCode (int n + 85)) - 85 = int n"
proof -
  assume "n < 0xC000"
  then have "unat (fromCharCode (int n + 85)) = n + 85" by (rule unat_marker)
  then show ?thesis unfolding charCode_def uint_nat by simp
qed

lemma scan_middle:
  assumes "length post = Suc n"
  shows "scan (pre @ mid @ post) (int n) (int (length pre)) acc
       = Inr (acc @ map (\<lambda>c. fromCharCode (charCode c - 80 + 70)) mid)"
proof (induction mid arbitrary: pre acc)
  case Nil
  show ?case using assms by (subst scan.simps) (simp add: Let_def)
next
  case (Cons x xs)
  have "scan ((pre @ [x]) @ xs @ post) (int n) (int (length (pre @ [x])))
          (acc @ [fromCharCode (charCode x - 80 + 70)])
      = Inr ((acc @ [fromCharCode (charCode x - 80 + 70)])
          @ map (\<lambda>c. fromCharCode (charCode c - 80 + 70)) xs)"
    by (rule Cons.IH)
  then show ?case using assms by (subst scan.simps) (simp add: Let_def nth_append add.commute)
qed

lemma decrypt_candidate:
  assumes d: "\<forall>c\<in>set data. unat c < 0x8000"
    and r0: "\<forall>c\<in>set rc0. unat c < 0x8000" "length rc0 < 0x8000"
    and r1: "\<forall>c\<in>set rc1. unat c < 0x8000" "length rc1 < 0x8000"
  shows "decrypt (candidate data rc0 rc1 k) (Some (key_of k)) = Inr data"
proof -
  define up where "up = (\<lambda>c. fromCharCode (charCode c + 80 - 70))"
  define down where "down = (\<lambda>c. fromCharCode (charCode c - 80 + 70))"
  define m0 where "m0 = fromCharCode (int (length rc0) + 85)"
  define m1 where "m1 = fromCharCode (int (length rc1) + 85)"
  define rest where "rest = rc0 @ map up data @ rc1 @ [m1]"
  define P where "P = m0 # rest"
  define kk where "kk = (case k of None \<Rightarrow> defaultKey | Some k \<Rightarrow> k)"
  have cand: "candidate data rc0 rc1 k = base64Encode (map up P) kk"
    by (simp add: candidate_def Let_def up_def m0_def m1_def P_def rest_def kk_def)
  have um0: "unat m0 = length rc0 + 85" unfolding m0_def using r0(2) by (intro unat_marker) simp
  have um1: "unat m1 = length rc1 + 85" unfolding m1_def using r1(2) by (intro unat_marker) simp
  have up_small: "unat (up c) < 0x9000" if "unat c < 0x8000" for c
    using unat_up [of c] that by (simp add: up_def)
  have Psmall: "\<forall>c\<in>set P. unat c < 0x9000"
    using d r0 r1 um0 um1 by (auto simp: P_def rest_def dest: up_small)
  have Xsmall: "\<forall>c\<in>set (map up P). unat c < 0xD000"
  proof
    fix x assume "x \<in> set (map up P)"
    then obtain c where c: "c \<in> set P" "x = up c" by auto
    then have "unat c < 0x9000" using Psmall by blast
    then show "unat x < 0xD000" using unat_up [of c] c(2) by (simp add: up_def)
  qed
  have dec: "base64Decode (trim (candidate data rc0 rc1 k)) kk = map up P"
    unfolding cand trim_base64Encode using Xsmall by (rule codec_roundtrip_small)
  have du: "down (up c) = c" for c unfolding down_def up_def by (rule down_up)
  have dn_up: "map down (map up xs) = xs" for xs
    by (induction xs) (simp_all add: du)
  have key: "(case (case Some (key_of k) of None \<Rightarrow> Key defaultKey | Some opts \<Rightarrow> opts) of
      Absent \<Rightarrow> str ''secretKey'' | Undefined \<Rightarrow> defaultKey | Key k \<Rightarrow> k) = kk"
    by (simp add: key_of_def kk_def split: option.splits)
  have fst0: "charCode m0 - 85 = int (length rc0)"
    unfolding m0_def using r0(2) by (intro charCode_marker) simp
  have "last P = m1" by (simp add: P_def rest_def)
  then have lst: "charCode (last P) - 85 = int (length rc1)"
    unfolding m1_def using r1(2) by (simp add: charCode_marker)
  have "scan (([m0] @ rc0) @ map up data @ (rc1 @ [m1])) (int (length rc1))
      (int (length ([m0] @ rc0))) [] = Inr ([] @ map down (map up data))"
    unfolding down_def by (rule scan_middle) simp
  then have sc: "scan P (int (length rc1)) (int (length rc0) + 1) [] = Inr data"
    unfolding dn_up by (simp add: P_def rest_def add.commute)
  have "decrypt (candidate data rc0 rc1 k) (Some (key_of k)) =
      (case map down (base64Decode (trim (candidate data rc0 rc1 k)) kk) of
         [] \<Rightarrow> Inl (DecodingError TypeError)
       | c # x \<Rightarrow>
           (case scan (map down (base64Decode (trim (candidate data rc0 rc1 k)) kk))
              (charCode (last (map down (base64Decode (trim (candidate data rc0 rc1 k)) kk))) - 85)
              (charCode c - 85 + 1) [] of
              Inl err \<Rightarrow> Inl (DecodingError err) | Inr res \<Rightarrow> Inr res))"
    unfolding decrypt_def Let_def key down_def ..
  also have "\<dots> = (case P of [] \<Rightarrow> Inl (DecodingError TypeError)
       | c # x \<Rightarrow> (case scan P (charCode (last P) - 85) (charCode c - 85 + 1) [] of
              Inl err \<Rightarrow> Inl (DecodingError err) | Inr res \<Rightarrow> Inr res))"
    by (simp only: dec dn_up)
  also have "\<dots> = (case scan P (charCode (last P) - 85) (charCode m0 - 85 + 1) [] of
              Inl err \<Rightarrow> Inl (DecodingError err) | Inr res \<Rightarrow> Inr res)"
    by (subst (1) P_def) simp
  also have "\<dots> = Inr data"
    by (simp only: fst0 lst sc sum.case)
  finally show ?thesis .
qed

lemma pad_length: "draws rnd \<Longrightarrow> 1 \<le> \<lfloor>rnd p * (5 + 15) + 1\<rfloor> \<and> \<lfloor>rnd p * (5 + 15) + 1\<rfloor> \<le> 20"
proof -
  assume "draws rnd"
  then have r: "0 \<le> rnd p" "rnd p < 1" by (simp_all add: draws_def)
  have "1 \<le> rnd p * (5 + 15) + 1" using r by simp
  then have lo: "1 \<le> \<lfloor>rnd p * (5 + 15) + 1\<rfloor>" by (simp add: le_floor_iff)
  have "rnd p * (5 + 15) + 1 < 21" using r by simp
  then have "\<lfloor>rnd p * (5 + 15) + 1\<rfloor> < 21" by (simp add: floor_less_iff)
  with lo show ?thesis by simp
qed

lemma characterSets_small: "c \<in> set (characterSets t) \<Longrightarrow> unat c < 0x80"
  by (cases t) (auto simp: str_def)

lemma resolve_set_small: "c \<in> set (resolve_set t) \<Longrightarrow> unat c < 0x80"
  by (auto simp: resolve_set_def characterSets_small simp del: characterSets.simps split: option.splits)

lemma set_trim: "set (trim s) \<subseteq> set s"
proof -
  have "set (dropWhile is_ws (rev (dropWhile is_ws s))) \<subseteq> set (rev (dropWhile is_ws s))"
    by (rule set_dropWhileD [THEN subsetI])
  also have "\<dots> \<subseteq> set s" using set_dropWhileD [of _ is_ws s] by auto
  finally show ?thesis by (simp add: trim_def)
qed

lemma printable_small: "printable s \<Longrightarrow> c \<in> set s \<Longrightarrow> unat c < 0x80"
  by (auto simp: printable_def list_all_iff word_le_nat_alt)

lemma encrypt_returns:
  fixes options :: "EncryptOptions option"
  defines "opts \<equiv> (case options of None \<Rightarrow> defaultOptions | Some opts \<Rightarrow> opts)"
  assumes s: "\<forall>c\<in>set (trim s). unat c < 0x8000" and d: "draws rnd"
    and e0: "redraw_ends rnd (resolve_set (firstRandomCharSet opts))"
    and e1: "redraw_ends rnd (resolve_set (secondRandomCharSet opts))"
  shows "\<exists>c p'. encrypt rnd s options p = Some (Inr (Some c, p'))
           \<and> decrypt c (Some (key_of (key opts))) = Inr (trim s)"
proof -
  let ?n0 = "\<lfloor>rnd p * (5 + 15) + 1\<rfloor>"
  have n0: "0 \<le> ?n0" "?n0 \<le> 20" using pad_length [OF d, of p] by simp_all
  obtain rc0 p1 where t0: "tokenGenerator rnd ?n0 (firstRandomCharSet opts) (Suc p) = Some (rc0, p1)"
      "int (length rc0) = ?n0" "set rc0 \<subseteq> set (resolve_set (firstRandomCharSet opts))"
    using tokenGenerator_returns [OF n0(1) d e0, of "Suc p"] by blast
  let ?n1 = "\<lfloor>rnd p1 * (5 + 15) + 1\<rfloor>"
  have n1: "0 \<le> ?n1" "?n1 \<le> 20" using pad_length [OF d, of p1] by simp_all
  obtain rc1 p2 where t1: "tokenGenerator rnd ?n1 (secondRandomCharSet opts) (Suc p1) = Some (rc1, p2)"
      "int (length rc1) = ?n1" "set rc1 \<subseteq> set (resolve_set (secondRandomCharSet opts))"
    using tokenGenerator_returns [OF n1(1) d e1, of "Suc p1"] by blast
  have l0: "length rc0 < 0x8000" using t0(2) n0 by linarith
  have l1: "length rc1 < 0x8000" using t1(2) n1 by linarith
  have c0: "\<forall>c\<in>set rc0. unat c < 0x8000" using t0(3) resolve_set_small by fastforce
  have c1: "\<forall>c\<in>set rc1. unat c < 0x8000" using t1(3) resolve_set_small by fastforce
  have dec: "decrypt (candidate (trim s) rc0 rc1 (key opts)) (Some (key_of (key opts))) = Inr (trim s)"
    using s c0 l0 c1 l1 by (rule decrypt_candidate)
  have "encrypt rnd s options p = Some (Inr (Some (candidate (trim s) rc0 rc1 (key opts)), p2))"
    using t0(1) t1(1) dec by (subst encrypt.simps) (simp add: Let_def opts_def [symmetric])
  with dec show ?thesis by blast
qed

lemma tokenGenerator_steady_0: "tokenGenerator (steady 0) 1 None p = Some (str ''A'', Suc p)"
proof -
  have r: "random_char (steady 0) (resolve_set None) q = str ''A''" for q
    by (rule random_char_steady_0)
  have f: "for_loop (steady 0) (resolve_set None) (nat 1) [] p = (str ''A'', Suc p)"
    using r [of p] by (simp add: str_def)
  have "do_while (steady 0) (resolve_set None) 1 (str ''A'') (Suc p) = Some (str ''A'', Suc p)"
    by (subst do_while.simps) (simp add: do_body_def split_def starts_with_zero_def str_def)
  then show ?thesis using f by (simp add: tokenGenerator_def)
qed

lemma encrypt_steady_0:
  assumes "\<forall>c\<in>set (trim s). unat c < 0x8000"
  shows "encrypt (steady 0) s
      (Some \<lparr>firstRandomCharSet = None, secondRandomCharSet = None, key = k\<rparr>) p
    = Some (Inr (Some (candidate (trim s) (str ''A'') (str ''A'') k), Suc (Suc (Suc (Suc p)))))"
proof -
  have a: "\<forall>c\<in>set (str ''A''). unat c < 0x8000" "length (str ''A'') < 0x8000"
    by (simp_all add: str_def)
  have dec: "decrypt (candidate (trim s) (str ''A'') (str ''A'') k) (Some (key_of k)) = Inr (trim s)"
    using assms a a by (rule decrypt_candidate)
  have n: "\<lfloor>steady 0 q * (5 + 15) + 1\<rfloor> = 1" for q by (simp add: steady_def)
  show ?thesis
    by (subst encrypt.simps) (simp only: Let_def option.case n tokenGenerator_steady_0
        Option.bind.simps prod.case EncryptOptions.simps dec sum.case refl if_True)
qed

lemma hi: "str ''hi'' = [104, 105]" "trim (str ''hi'') = str ''hi''"
  by (simp_all add: str_def trim_def is_ws_def)

lemma tst: "\<forall>c\<in>set (trim (str ''hi'')). unat c < 0x8000"
  unfolding hi(2) by (simp add: str_def)

text \<open>
  C1, as amended. For every printable-ASCII string \<open>s\<close>, every key \<open>k\<close> and every sequence
  of draws in \<open>[0, 1)\<close> under which the redraw of a leading \<open>'0'\<close> ends,
  \<open>encrypt(s, {key: k})\<close> returns a string \<open>c\<close>, and \<open>decrypt(c, {key: k})\<close> returns
  \<open>s.trim()\<close>.
\<close>

theorem round_trip:
  assumes "printable s" "draws rnd" "redraw_ends rnd (resolve_set None)"
  shows "\<exists>c p'. encrypt rnd s
             (Some \<lparr>firstRandomCharSet = None, secondRandomCharSet = None, key = Some k\<rparr>) p
           = Some (Inr (Some c, p'))
         \<and> decrypt c (Some (Key k)) = Inr (trim s)"
proof -
  have "\<forall>c\<in>set (trim s). unat c < 0x8000"
    using printable_small [OF assms(1)] set_trim [of s] by fastforce
  then show ?thesis
    using encrypt_returns [of s rnd "Some \<lparr>firstRandomCharSet = None, secondRandomCharSet = None, key = Some k\<rparr>" p] assms(2,3)
    by (simp add: key_of_def)
qed

theorem round_trip_witness:
  "printable (str '' hi'') \<and> draws (steady 0) \<and> redraw_ends (steady 0) (resolve_set None)
   \<and> (\<exists>c p'. encrypt (steady 0) (str '' hi'')
               (Some \<lparr>firstRandomCharSet = None, secondRandomCharSet = None,
                  key = Some (str ''k'')\<rparr>) 0
             = Some (Inr (Some c, p'))
           \<and> decrypt c (Some (Key (str ''k''))) = Inr (str ''hi''))"
proof -
  have p: "printable (str '' hi'')" by (simp add: printable_def str_def)
  have d: "draws (steady 0)" by (simp add: draws_steady)
  have t: "trim (str '' hi'') = str ''hi''" by (simp add: str_def trim_def is_ws_def)
  show ?thesis
    using p d redraw_ends_steady_0 round_trip [OF p d redraw_ends_steady_0, of "str ''k''" 0]
    by (simp add: t)
qed

lemma defaultKey_sum: "keySum defaultKey = 2847" "keySum (str ''secretKey'') = 943"
  by (simp_all add: keySum_def defaultKey_def str_def charCode_def)

lemma step_shift: "shifted [96, 75, 124, 125, 75, 96] defaultKey = [103, 83, 133, 135, 86, 108]"
  by (simp add: shifted_def defaultKey_sum shiftChar_def fromCharCode_def charCode_def)

lemma step_utf8: "utf8_encode [103, 83, 133, 135, 86, 108] = [0x67, 0x53, 0xC2, 0x85, 0xC2, 0x87, 0x56, 0x6C]"
  by (simp add: utf8_encode_def scalar_def is_high_def is_low_def utf8_bytes_def u8_def)

lemma step_b64: "b64_encode [0x67, 0x53, 0xC2, 0x85, 0xC2, 0x87, 0x56, 0x6C] = str ''Z1PChcKHVmw=''"
  by (simp add: b64_char_def b64_pad_def u16_def str_def)

lemma step_text: "utf8_encode (str ''Z1PChcKHVmw='') = [90, 49, 80, 67, 104, 99, 75, 72, 86, 109, 119, 61]"
  by (simp add: utf8_encode_def scalar_def is_high_def is_low_def utf8_bytes_def u8_def str_def)

lemma step_b64_2: "b64_encode [90, 49, 80, 67, 104, 99, 75, 72, 86, 109, 119, 61] = str ''WjFQQ2hjS0hWbXc9''"
  by (simp add: b64_char_def b64_pad_def u16_def str_def)

lemma step_mix:
  "map_index 0 (\<lambda>char index. shiftChar char (int index mod 5)) (str ''WjFQQ2hjS0hWbXc9'')
     = str ''WkHTU2ilV4hXd[g9''"
  by (simp add: shiftChar_def fromCharCode_def charCode_def str_def)

lemma encode_hi: "base64Encode [96, 75, 124, 125, 75, 96] defaultKey = str ''WkHTU2ilV4hXd[g9''"
  unfolding base64Encode_def Let_def shifted_def [symmetric]
  by (simp only: step_shift step_utf8 step_b64 step_text step_b64_2 step_mix)

lemma candidate_hi:
  "candidate (str ''hi'') (str ''A'') (str ''A'') None = str ''WkHTU2ilV4hXd[g9''"
proof -
  have "candidate (str ''hi'') (str ''A'') (str ''A'') None
      = base64Encode [96, 75, 124, 125, 75, 96] defaultKey"
    by (simp add: candidate_def fromCharCode_def charCode_def str_def)
  then show ?thesis by (simp only: encode_hi)
qed

lemma decode_hi_secretKey:
  "base64Decode (str ''WkHTU2ilV4hXd[g9'') (str ''secretKey'') = [100, 79, 128, 129, 79, 100]"
  unfolding encode_hi [symmetric] base64Decode_base64Encode2 step_shift
  by (simp add: defaultKey_sum unshiftChar_def fromCharCode_def charCode_def is_high_def is_low_def)

lemma scan_hi: "scan [90, 69, 118, 119, 69, 90] 5 6 [] = Inr []"
  by (subst scan.simps) simp

text \<open>
  C7, on the code. \<open>WkHTU2ilV4hXd[g9\<close> is a ciphertext of \<open>hi\<close> under the default key.
  \<open>decrypt(c)\<close> and \<open>decrypt(c, {key: defaultKey})\<close> return \<open>hi\<close>; \<open>decrypt(c, {})\<close>
  takes the key \<open>secretKey\<close> instead and returns the empty string.
\<close>

theorem decrypt_empty_options:
  "decrypt (str ''WkHTU2ilV4hXd[g9'') None = Inr (str ''hi'')
   \<and> decrypt (str ''WkHTU2ilV4hXd[g9'') (Some (Key defaultKey)) = Inr (str ''hi'')
   \<and> decrypt (str ''WkHTU2ilV4hXd[g9'') (Some Absent) = Inr []"
proof (intro conjI)
  have a: "\<forall>c\<in>set (str ''hi''). unat c < 0x8000" "\<forall>c\<in>set (str ''A''). unat c < 0x8000"
    "length (str ''A'') < 0x8000"
    by (simp_all add: str_def)
  have d: "decrypt (candidate (str ''hi'') (str ''A'') (str ''A'') None) (Some (key_of None))
      = Inr (str ''hi'')"
    using a(1,2,3,2,3) by (rule decrypt_candidate)
  then have u: "decrypt (str ''WkHTU2ilV4hXd[g9'') (Some Undefined) = Inr (str ''hi'')"
    by (simp only: candidate_hi key_of_def option.case)
  show "decrypt (str ''WkHTU2ilV4hXd[g9'') None = Inr (str ''hi'')"
    using u by (simp add: decrypt_def)
  show "decrypt (str ''WkHTU2ilV4hXd[g9'') (Some (Key defaultKey)) = Inr (str ''hi'')"
    using u by (simp add: decrypt_def)
  have t: "trim (str ''WkHTU2ilV4hXd[g9'') = str ''WkHTU2ilV4hXd[g9''"
    unfolding encode_hi [symmetric] by (rule trim_base64Encode)
  show "decrypt (str ''WkHTU2ilV4hXd[g9'') (Some Absent) = Inr []"
    unfolding decrypt_def Let_def
    by (simp add: t decode_hi_secretKey fromCharCode_def charCode_def scan_hi)
qed

lemma for_loop_const:
  "(\<And>q. random_char rnd cs q = [c]) \<Longrightarrow> for_loop rnd cs n token p = (token @ replicate n c, p + n)"
  by (induction n arbitrary: token p) (simp_all add: replicate_app_Cons_same)

lemma tokenGenerator_stuck:
  assumes "\<And>q. random_char rnd (resolve_set t) q = str ''0''" "1 \<le> n"
  shows "tokenGenerator rnd n t p = None"
proof -
  have z: "random_char rnd (resolve_set t) q = [0x30]" for q using assms(1) by (simp add: str_def)
  obtain m where m: "nat n = Suc m" using assms(2) by (cases "nat n") simp_all
  have f: "for_loop rnd (resolve_set t) (nat n) [] p = (replicate (nat n) 0x30, p + nat n)"
    using for_loop_const [of rnd "resolve_set t" "0x30" "nat n" "[]" p] z by simp
  have "do_while rnd (resolve_set t) n (replicate (nat n) 0x30) (p + nat n) = None"
  proof (rule do_while_stuck)
    show "starts_with_zero (split (replicate (nat n) 0x30))"
      by (simp add: m split_def starts_with_zero_def str_def)
    show "\<forall>q\<ge>p + nat n. random_char rnd (resolve_set t) q = str ''0''" using assms(1) by simp
    show "int (length (replicate (nat n) (0x30 :: 16 word))) = n" using assms(2) by simp
  qed
  then show ?thesis using f by (simp add: tokenGenerator_def)
qed

lemma random_char_steady_zero: "random_char (steady (17 / 20)) (resolve_set None) q = str ''0''"
  by (simp add: random_char_def steady_def resolve_set_def charAt_def str_def)

text \<open>
  C1 as stated fails: when every draw is 17/20, both the length drawn is 18 and every
  character drawn from the default set is \<open>'0'\<close>; the token generator redraws the leading
  \<open>'0'\<close> for ever, and \<open>encrypt\<close> never returns.
\<close>

theorem round_trip_counterexample:
  "encrypt (steady (17 / 20)) (str ''hi'')
     (Some \<lparr>firstRandomCharSet = None, secondRandomCharSet = None, key = Some (str ''k'')\<rparr>) 0
   = None"
proof -
  have "tokenGenerator (steady (17 / 20)) \<lfloor>steady (17 / 20) 0 * (5 + 15) + 1\<rfloor> None (Suc 0) = None"
    by (rule tokenGenerator_stuck) (simp_all add: random_char_steady_zero steady_def)
  then show ?thesis by (subst encrypt.simps) (simp add: Let_def)
qed

subsection \<open>The retry of encrypt\<close>

lemma for_loop_counter: "snd (for_loop rnd cs n token p) = p + n"
  by (induction n arbitrary: token p) simp_all

lemma do_while_counter:
  assumes "do_while rnd cs len token p = Some y"
  shows "p \<le> snd y"
  by (rule do_while.raw_induct [where P = "\<lambda>rnd cs len token p y. p \<le> snd y", OF _ assms])
    (fastforce simp: do_body_def Let_def split: prod.splits if_splits)

lemma tokenGenerator_counter:
  assumes "tokenGenerator rnd len t p = Some (token, p')"
  shows "p \<le> p'"
proof -
  obtain tk q where f: "for_loop rnd (resolve_set t) (nat len) [] p = (tk, q)" by fastforce
  then have "q = p + nat len" using for_loop_counter [of rnd "resolve_set t" "nat len" "[]" p] by simp
  moreover have "do_while rnd (resolve_set t) len tk q = Some (token, p')"
    using assms f by (simp add: tokenGenerator_def)
  then have "q \<le> p'" using do_while_counter by fastforce
  ultimately show ?thesis by simp
qed

lemma encrypt_retry:
  fixes options :: "EncryptOptions option"
  defines "opts \<equiv> (case options of None \<Rightarrow> defaultOptions | Some opts \<Rightarrow> opts)"
  assumes t0: "tokenGenerator rnd \<lfloor>rnd p * (5 + 15) + 1\<rfloor> (firstRandomCharSet opts) (Suc p) = Some (rc0, p1)"
    and t1: "tokenGenerator rnd \<lfloor>rnd p1 * (5 + 15) + 1\<rfloor> (secondRandomCharSet opts) (Suc p1) = Some (rc1, p2)"
    and d: "decrypt (candidate (trim s) rc0 rc1 (key opts)) (Some (key_of (key opts))) = Inr d"
    and ne: "d \<noteq> trim s"
  shows "encrypt rnd s options p =
      (case encrypt rnd (trim s) (Some opts) p2 of
         None \<Rightarrow> None
       | Some (Inl err) \<Rightarrow> Some (Inl (EncodingError err))
       | Some (Inr (r, q)) \<Rightarrow> Some (Inr (None, q)))"
  using t0 t1 d ne
  by (subst encrypt.simps)
    (simp add: Let_def opts_def [symmetric] split: option.splits sum.splits prod.splits)

lemma for_loop_agree:
  "\<forall>q\<ge>p. rnd q = rnd' q \<Longrightarrow> for_loop rnd cs n token p = for_loop rnd' cs n token p"
proof (induction n arbitrary: token p)
  case 0
  show ?case by simp
next
  case (Suc n)
  have "random_char rnd cs p = random_char rnd' cs p" using Suc.prems by (simp add: random_char_def)
  moreover have "\<forall>q\<ge>Suc p. rnd q = rnd' q" using Suc.prems by simp
  ultimately show ?case using Suc.IH by simp
qed

lemma do_body_agree:
  assumes "\<forall>q\<ge>p. rnd q = rnd' q"
  shows "do_body rnd cs len token p = do_body rnd' cs len token p"
proof -
  have "random_char rnd cs p = random_char rnd' cs p"
    "random_char rnd cs (Suc p) = random_char rnd' cs (Suc p)"
    using assms by (simp_all add: random_char_def)
  then show ?thesis by (cases "starts_with_zero (split token)") (simp_all add: do_body_def Let_def)
qed

lemma do_body_counter: "do_body rnd cs len token p = (t, token', p') \<Longrightarrow> p \<le> p'"
  by (auto simp: do_body_def Let_def split: if_splits)

lemma do_while_agree_Some:
  assumes y: "do_while rnd cs len token p = Some y" and a: "\<forall>q\<ge>p. rnd q = rnd' q"
  shows "do_while rnd' cs len token p = Some y"
proof -
  have "(\<forall>q\<ge>p. rnd q = rnd' q) \<longrightarrow> do_while rnd' cs len token p = Some y"
  proof (rule do_while.raw_induct [where P = "\<lambda>rnd cs len token p y.
      (\<forall>q\<ge>p. rnd q = rnd' q) \<longrightarrow> do_while rnd' cs len token p = Some y", OF _ y], goal_cases)
    case (1 f rnd cs len token p y)
    show ?case
    proof
      assume a: "\<forall>q\<ge>p. rnd q = rnd' q"
      obtain t token' p' where b: "do_body rnd cs len token p = (t, token', p')"
        by (cases "do_body rnd cs len token p") auto
      then have b': "do_body rnd' cs len token p = (t, token', p')"
        using do_body_agree [OF a] by simp
      have "p \<le> p'" using b by (rule do_body_counter)
      then have a': "\<forall>q\<ge>p'. rnd q = rnd' q" using a by simp
      show "do_while rnd' cs len token p = Some y"
      proof (cases "starts_with_zero t \<or> int (length token') \<noteq> len")
        case True
        then have "f rnd cs len token' p' = Some y" using 1(2) b by simp
        then have "do_while rnd' cs len token' p' = Some y" using 1(1) a' by blast
        then show ?thesis using True b' by (subst do_while.simps) simp
      next
        case False
        then have "y = (concat t, p')" using 1(2) b by simp
        then show ?thesis using False b' by (subst do_while.simps) simp
      qed
    qed
  qed
  then show ?thesis using a by blast
qed

lemma do_while_agree:
  assumes "\<forall>q\<ge>p. rnd q = rnd' q"
  shows "do_while rnd cs len token p = do_while rnd' cs len token p"
proof (cases "do_while rnd cs len token p")
  case (Some y)
  then show ?thesis using do_while_agree_Some [OF Some assms] by simp
next
  case None
  show ?thesis
  proof (cases "do_while rnd' cs len token p")
    case (Some y)
    have "\<forall>q\<ge>p. rnd' q = rnd q" using assms by simp
    then have "do_while rnd cs len token p = Some y" using Some by (rule do_while_agree_Some [rotated])
    then show ?thesis using None by simp
  qed (simp add: None)
qed

lemma tokenGenerator_agree:
  assumes "\<forall>q\<ge>p. rnd q = rnd' q"
  shows "tokenGenerator rnd len t p = tokenGenerator rnd' len t p"
proof -
  obtain tk q where f: "for_loop rnd (resolve_set t) (nat len) [] p = (tk, q)" by fastforce
  then have q: "q = p + nat len"
    using for_loop_counter [of rnd "resolve_set t" "nat len" "[]" p] by simp
  have f': "for_loop rnd' (resolve_set t) (nat len) [] p = (tk, q)"
    using f for_loop_agree [OF assms] by simp
  have "\<forall>i\<ge>q. rnd i = rnd' i" using assms q by simp
  then have "do_while rnd (resolve_set t) len tk q = do_while rnd' (resolve_set t) len tk q"
    by (rule do_while_agree)
  then show ?thesis using f f' by (simp add: tokenGenerator_def)
qed

lemma encrypt_agree_Some:
  assumes y: "encrypt rnd s options p = Some y" and a: "\<forall>q\<ge>p. rnd q = rnd' q"
  shows "encrypt rnd' s options p = Some y"
proof -
  have "(\<forall>q\<ge>p. rnd q = rnd' q) \<longrightarrow> encrypt rnd' s options p = Some y"
  proof (rule encrypt.raw_induct [where P = "\<lambda>rnd s options p y.
      (\<forall>q\<ge>p. rnd q = rnd' q) \<longrightarrow> encrypt rnd' s options p = Some y", OF _ y], goal_cases)
    case (1 f rnd s options p y)
    show ?case
    proof
      assume a: "\<forall>q\<ge>p. rnd q = rnd' q"
      define opts where "opts = (case options of None \<Rightarrow> defaultOptions | Some opts \<Rightarrow> opts)"
      have r0: "rnd p = rnd' p" using a by simp
      have a1: "\<forall>q\<ge>Suc p. rnd q = rnd' q" using a by simp
      obtain rc0 p1 where t0:
        "tokenGenerator rnd \<lfloor>rnd p * (5 + 15) + 1\<rfloor> (firstRandomCharSet opts) (Suc p) = Some (rc0, p1)"
        using 1(2) by (auto simp: Let_def opts_def split: Option.bind_splits)
      have t0': "tokenGenerator rnd' \<lfloor>rnd' p * (5 + 15) + 1\<rfloor> (firstRandomCharSet opts) (Suc p) = Some (rc0, p1)"
        using t0 tokenGenerator_agree [OF a1] r0 by simp
      have p1: "Suc p \<le> p1" using t0 by (rule tokenGenerator_counter)
      have r1: "rnd p1 = rnd' p1" using a p1 by simp
      have a2: "\<forall>q\<ge>Suc p1. rnd q = rnd' q" using a p1 by simp
      obtain rc1 p2 where t1:
        "tokenGenerator rnd \<lfloor>rnd p1 * (5 + 15) + 1\<rfloor> (secondRandomCharSet opts) (Suc p1) = Some (rc1, p2)"
        using 1(2) t0 by (auto simp: Let_def opts_def split: Option.bind_splits)
      have t1': "tokenGenerator rnd' \<lfloor>rnd' p1 * (5 + 15) + 1\<rfloor> (secondRandomCharSet opts) (Suc p1) = Some (rc1, p2)"
        using t1 tokenGenerator_agree [OF a2] r1 by simp
      have p2: "Suc p1 \<le> p2" using t1 by (rule tokenGenerator_counter)
      have a3: "\<forall>q\<ge>p2. rnd q = rnd' q" using a p1 p2 by simp
      show "encrypt rnd' s options p = Some y"
      proof (cases "decrypt (candidate (trim s) rc0 rc1 (key opts)) (Some (key_of (key opts)))")
        case (Inl err)
        then have "y = Inl (EncodingError err)" using 1(2) t0 t1 by (simp add: Let_def opts_def)
        then show ?thesis using Inl t0' t1'
          by (subst encrypt.simps) (simp add: Let_def opts_def [symmetric])
      next
        case (Inr d)
        show ?thesis
        proof (cases "d = trim s")
          case True
          then have "y = Inr (Some (candidate (trim s) rc0 rc1 (key opts)), p2)"
            using 1(2) t0 t1 Inr by (simp add: Let_def opts_def)
          then show ?thesis using Inr True t0' t1'
            by (subst encrypt.simps) (simp add: Let_def opts_def [symmetric])
        next
          case False
          then have b: "Option.bind (f rnd (trim s) (Some opts) p2)
              (\<lambda>r. case r of Inl err \<Rightarrow> Some (Inl (EncodingError err))
                  | Inr (_, p) \<Rightarrow> Some (Inr (None, p))) = Some y"
            using 1(2) t0 t1 Inr by (simp add: Let_def opts_def)
          then obtain r where r: "f rnd (trim s) (Some opts) p2 = Some r"
            by (auto split: Option.bind_splits)
          then have "encrypt rnd' (trim s) (Some opts) p2 = Some r" using 1(1) a3 by blast
          then show ?thesis using Inr False t0' t1' b r
            by (subst encrypt.simps) (simp add: Let_def opts_def [symmetric])
        qed
      qed
    qed
  qed
  then show ?thesis using a by blast
qed

lemma encrypt_agree:
  assumes "\<forall>q\<ge>p. rnd q = rnd' q"
  shows "encrypt rnd s options p = encrypt rnd' s options p"
proof (cases "encrypt rnd s options p")
  case (Some y)
  then show ?thesis using encrypt_agree_Some [OF Some assms] by simp
next
  case None
  show ?thesis
  proof (cases "encrypt rnd' s options p")
    case (Some y)
    have "\<forall>q\<ge>p. rnd' q = rnd q" using assms by simp
    then have "encrypt rnd s options p = Some y" using Some by (rule encrypt_agree_Some [rotated])
    then show ?thesis using None by simp
  qed (simp add: None)
qed

lemma concat_split: "concat (split s) = s"
  by (induction s) (simp_all add: split_def)

lemma for_loop_const_from:
  "(\<And>q. p \<le> q \<Longrightarrow> random_char rnd cs q = [c]) \<Longrightarrow>
     for_loop rnd cs n token p = (token @ replicate n c, p + n)"
  by (induction n arbitrary: token p) (simp_all add: replicate_app_Cons_same)

lemma tokenGenerator_const:
  assumes "\<And>q. p \<le> q \<Longrightarrow> random_char rnd (resolve_set t) q = [c]" "c \<noteq> 0x30"
  shows "tokenGenerator rnd (int n) t p = Some (replicate n c, p + n)"
proof -
  have f: "for_loop rnd (resolve_set t) (nat (int n)) [] p = (replicate n c, p + n)"
    using for_loop_const_from [of p rnd "resolve_set t" c n "[]"] assms(1) by simp
  have z: "\<not> starts_with_zero (split (replicate n c))"
    using assms(2) by (cases n) (simp_all add: split_def starts_with_zero_def str_def)
  have "do_while rnd (resolve_set t) (int n) (replicate n c) (p + n) = Some (replicate n c, p + n)"
    using z by (subst do_while.simps) (simp add: do_body_def Let_def concat_split)
  then show ?thesis using f by (simp add: tokenGenerator_def)
qed

lemma random_char_two_tries: "random_char two_tries (resolve_set None) (Suc q) = [0x41]"
  by (simp add: random_char_def two_tries_def resolve_set_def charAt_def str_def)

lemma tokenGenerator_two_tries:
  "tokenGenerator two_tries (int n) None (Suc p) = Some (replicate n 0x41, Suc p + n)"
proof (rule tokenGenerator_const)
  fix q assume "Suc p \<le> q"
  then obtain q' where "q = Suc q'" by (cases q) simp_all
  then show "random_char two_tries (resolve_set None) q = [0x41]"
    by (simp add: random_char_two_tries)
qed simp

lemma decrypt_candidate_eq:
  assumes "map (\<lambda>char. fromCharCode (charCode char - 80 + 70))
         (map_index 0 (\<lambda>char index. unshiftChar char ((keySum k + int index) mod 20))
           (toWellFormed (shifted
              (map (\<lambda>char. fromCharCode (charCode char + 80 - 70))
                 ([fromCharCode (int (length rc0) + 85)] @ rc0
                  @ map (\<lambda>c. fromCharCode (charCode c + 80 - 70)) data
                  @ rc1 @ [fromCharCode (int (length rc1) + 85)])) k))) = c # cs"
  shows "decrypt (candidate data rc0 rc1 (Some k)) (Some (Key k)) =
     (case scan (c # cs) (charCode (last (c # cs)) - 85) (charCode c - 85 + 1) [] of
             Inl err \<Rightarrow> Inl (DecodingError err)
           | Inr res \<Rightarrow> Inr res)"
proof -
  define P where "P = map (\<lambda>char. fromCharCode (charCode char + 80 - 70))
                 ([fromCharCode (int (length rc0) + 85)] @ rc0
                  @ map (\<lambda>c. fromCharCode (charCode c + 80 - 70)) data
                  @ rc1 @ [fromCharCode (int (length rc1) + 85)])"
  have c: "candidate data rc0 rc1 (Some k) = base64Encode P k"
    by (simp add: candidate_def Let_def P_def)
  have dec: "base64Decode (trim (candidate data rc0 rc1 (Some k))) k
      = map_index 0 (\<lambda>char index. unshiftChar char ((keySum k + int index) mod 20))
           (toWellFormed (shifted P k))"
    unfolding c trim_base64Encode by (rule base64Decode_base64Encode)
  have D: "map (\<lambda>char. fromCharCode (charCode char - 80 + 70))
      (base64Decode (trim (candidate data rc0 rc1 (Some k))) k) = c # cs"
    unfolding dec P_def by (rule assms)
  show ?thesis
    unfolding decrypt_def Let_def
    by (simp only: option.case key_property.case D list.case)
qed

lemma keySum_v: "keySum (str ''v'') = 118"
  by (simp add: keySum_def str_def charCode_def)

lemma up_fails:
  "map (\<lambda>char. fromCharCode (charCode char + 80 - 70))
     ([fromCharCode (int (length [0x41, 0x41 :: 16 word]) + 85)] @ [0x41, 0x41]
        @ map (\<lambda>c. fromCharCode (charCode c + 80 - 70)) [0xD7EB]
        @ [0x41] @ [fromCharCode (int (length [0x41 :: 16 word]) + 85)])
   = [97, 75, 75, 0xD7FF, 75, 96]"
  by (simp add: fromCharCode_def charCode_def)

lemma shifted_fails: "shifted [97, 75, 75, 0xD7FF, 75, 96] (str ''v'') = [115, 94, 75, 0xD800, 77, 99]"
  by (simp add: shifted_def keySum_v shiftChar_def fromCharCode_def charCode_def)

lemma toWellFormed_fails: "toWellFormed [115, 94, 75, 0xD800, 77, 99] = [115, 94, 75, 0xFFFD, 77, 99]"
  by (simp add: is_high_def is_low_def)

lemma unshift_fails:
  "map_index 0 (\<lambda>char index. unshiftChar char ((keySum (str ''v'') + int index) mod 20))
      [115, 94, 75, 0xFFFD, 77, 99] = [97, 75, 75, 0xFFFC, 75, 96]"
  by (simp add: keySum_v unshiftChar_def fromCharCode_def charCode_def)

lemma down_fails:
  "map (\<lambda>char. fromCharCode (charCode char - 80 + 70)) [97, 75, 75, 0xFFFC, 75, 96]
     = [87, 65, 65, 0xFFF2, 65, 86]"
  by (simp add: fromCharCode_def charCode_def)

lemma scan_fails: "scan [87, 65, 65, 0xFFF2, 65, 86] 1 3 [] = Inr [0xFFE8]"
  by (subst scan.simps, simp add: fromCharCode_def charCode_def)
    (subst scan.simps, simp)

lemma trim_D7EB: "trim [0xD7EB] = [0xD7EB]"
  by (simp add: trim_def is_ws_def)

lemma check_fails:
  "decrypt (candidate [0xD7EB] [0x41, 0x41] [0x41] (Some (str ''v''))) (Some (Key (str ''v'')))
     = Inr [0xFFE8]"
proof -
  have "decrypt (candidate [0xD7EB] [0x41, 0x41] [0x41] (Some (str ''v''))) (Some (Key (str ''v'')))
      = (case scan [87, 65, 65, 0xFFF2, 65, 86] (charCode (last [87, 65, 65, 0xFFF2, 65, 86]) - 85)
            (charCode 87 - 85 + 1) [] of
           Inl err \<Rightarrow> Inl (DecodingError err) | Inr res \<Rightarrow> Inr res)"
    by (rule decrypt_candidate_eq)
      (simp only: up_fails shifted_fails toWellFormed_fails unshift_fails down_fails)
  also have "\<dots> = Inr [0xFFE8]"
    by (simp add: charCode_def scan_fails)
  finally show ?thesis .
qed

lemma up_passes:
  "map (\<lambda>char. fromCharCode (charCode char + 80 - 70))
     ([fromCharCode (int (length [0x41 :: 16 word]) + 85)] @ [0x41]
        @ map (\<lambda>c. fromCharCode (charCode c + 80 - 70)) [0xD7EB]
        @ [0x41] @ [fromCharCode (int (length [0x41 :: 16 word]) + 85)])
   = [96, 75, 0xD7FF, 75, 96]"
  by (simp add: fromCharCode_def charCode_def)

lemma shifted_passes: "shifted [96, 75, 0xD7FF, 75, 96] (str ''v'') = [114, 94, 0xD7FF, 76, 98]"
  by (simp add: shifted_def keySum_v shiftChar_def fromCharCode_def charCode_def)

lemma toWellFormed_passes: "toWellFormed [114, 94, 0xD7FF, 76, 98] = [114, 94, 0xD7FF, 76, 98]"
  by (simp add: is_high_def is_low_def)

lemma unshift_passes:
  "map_index 0 (\<lambda>char index. unshiftChar char ((keySum (str ''v'') + int index) mod 20))
      [114, 94, 0xD7FF, 76, 98] = [96, 75, 0xD7FF, 75, 96]"
  by (simp add: keySum_v unshiftChar_def fromCharCode_def charCode_def)

lemma down_passes:
  "map (\<lambda>char. fromCharCode (charCode char - 80 + 70)) [96, 75, 0xD7FF, 75, 96]
     = [86, 65, 0xD7F5, 65, 86]"
  by (simp add: fromCharCode_def charCode_def)

lemma scan_passes: "scan [86, 65, 0xD7F5, 65, 86] 1 2 [] = Inr [0xD7EB]"
  by (subst scan.simps, simp add: fromCharCode_def charCode_def)
    (subst scan.simps, simp)

lemma check_passes:
  "decrypt (candidate [0xD7EB] [0x41] [0x41] (Some (str ''v''))) (Some (Key (str ''v'')))
     = Inr [0xD7EB]"
proof -
  have "decrypt (candidate [0xD7EB] [0x41] [0x41] (Some (str ''v''))) (Some (Key (str ''v'')))
      = (case scan [86, 65, 0xD7F5, 65, 86] (charCode (last [86, 65, 0xD7F5, 65, 86]) - 85)
            (charCode 86 - 85 + 1) [] of
           Inl err \<Rightarrow> Inl (DecodingError err) | Inr res \<Rightarrow> Inr res)"
    by (rule decrypt_candidate_eq)
      (simp only: up_passes shifted_passes toWellFormed_passes unshift_passes down_passes)
  also have "\<dots> = Inr [0xD7EB]"
    by (simp add: charCode_def scan_passes)
  finally show ?thesis .
qed

lemma first_try:
  "tokenGenerator two_tries \<lfloor>two_tries 0 * (5 + 15) + 1\<rfloor> None (Suc 0) = Some ([0x41, 0x41], 3)"
  "tokenGenerator two_tries \<lfloor>two_tries 3 * (5 + 15) + 1\<rfloor> None (Suc 3) = Some ([0x41], 5)"
  "tokenGenerator two_tries \<lfloor>two_tries 5 * (5 + 15) + 1\<rfloor> None (Suc 5) = Some ([0x41], 7)"
  "tokenGenerator two_tries \<lfloor>two_tries 7 * (5 + 15) + 1\<rfloor> None (Suc 7) = Some ([0x41], 9)"
  using tokenGenerator_two_tries [of 2 0] tokenGenerator_two_tries [of 1 3]
    tokenGenerator_two_tries [of 1 5] tokenGenerator_two_tries [of 1 7]
  by (simp_all add: two_tries_def numeral_2_eq_2)

lemma second_try:
  "encrypt two_tries [0xD7EB]
     (Some \<lparr>firstRandomCharSet = None, secondRandomCharSet = None, key = Some (str ''v'')\<rparr>) 5
     = Some (Inr (Some (candidate [0xD7EB] [0x41] [0x41] (Some (str ''v''))), 9))"
  by (subst encrypt.simps)
    (simp only: Let_def option.case first_try Option.bind.simps prod.case EncryptOptions.simps
      trim_D7EB check_passes key_of_def sum.case refl if_True)

text \<open>
  C2. Whatever the plaintext, the options and the draws, a string that \<open>encrypt\<close> returns
  decrypts under the same key to the trimmed plaintext. When the candidate built from
  the two paddings fails that check, \<open>encrypt\<close> does not return it: it runs the whole
  encryption again on the trimmed plaintext with the same options, from the draws that
  follow those of the failed attempt, and then gives \<open>undefined\<close> back (or the error of
  the second run, or nothing when that run never returns), never a string. A run started
  at some draw reads no earlier draw, so the paddings of the second run are new ones.
\<close>

theorem encrypt_never_unverified:
  "(encrypt rnd s options p = Some (Inr (Some c, p')) \<longrightarrow>
      decrypt c (Some (key_of (key (case options of None \<Rightarrow> defaultOptions | Some opts \<Rightarrow> opts))))
        = Inr (trim s))
   \<and> (opts = (case options' of None \<Rightarrow> defaultOptions | Some opts \<Rightarrow> opts)
      \<and> tokenGenerator rnd' \<lfloor>rnd' q * (5 + 15) + 1\<rfloor> (firstRandomCharSet opts) (Suc q)
          = Some (rc0, q1)
      \<and> tokenGenerator rnd' \<lfloor>rnd' q1 * (5 + 15) + 1\<rfloor> (secondRandomCharSet opts) (Suc q1)
          = Some (rc1, q2)
      \<and> decrypt (candidate (trim t) rc0 rc1 (key opts)) (Some (key_of (key opts))) = Inr d
      \<and> d \<noteq> trim t
      \<longrightarrow> q < q2
        \<and> encrypt rnd' t options' q =
            (case encrypt rnd' (trim t) (Some opts) q2 of
               None \<Rightarrow> None
             | Some (Inl err) \<Rightarrow> Some (Inl (EncodingError err))
             | Some (Inr (r, q')) \<Rightarrow> Some (Inr (None, q')))
        \<and> encrypt rnd' t options' q \<noteq> Some (Inr (Some c', p'')))
   \<and> ((\<forall>i\<ge>n. rnd1 i = rnd2 i) \<longrightarrow> encrypt rnd1 u options'' n = encrypt rnd2 u options'' n)"
proof (intro conjI impI)
  assume "encrypt rnd s options p = Some (Inr (Some c, p'))"
  then show "decrypt c (Some (key_of (key (case options of None \<Rightarrow> defaultOptions | Some opts \<Rightarrow> opts))))
        = Inr (trim s)"
    by (subst (asm) encrypt.simps)
      (auto simp: Let_def split: Option.bind_splits prod.splits sum.splits if_splits)
next
  assume "\<forall>i\<ge>n. rnd1 i = rnd2 i"
  then show "encrypt rnd1 u options'' n = encrypt rnd2 u options'' n" by (rule encrypt_agree)
next
  assume a: "opts = (case options' of None \<Rightarrow> defaultOptions | Some opts \<Rightarrow> opts)
      \<and> tokenGenerator rnd' \<lfloor>rnd' q * (5 + 15) + 1\<rfloor> (firstRandomCharSet opts) (Suc q)
          = Some (rc0, q1)
      \<and> tokenGenerator rnd' \<lfloor>rnd' q1 * (5 + 15) + 1\<rfloor> (secondRandomCharSet opts) (Suc q1)
          = Some (rc1, q2)
      \<and> decrypt (candidate (trim t) rc0 rc1 (key opts)) (Some (key_of (key opts))) = Inr d
      \<and> d \<noteq> trim t"
  have "Suc q \<le> q1" using a tokenGenerator_counter by blast
  moreover have "Suc q1 \<le> q2" using a tokenGenerator_counter by blast
  ultimately show "q < q2" by simp
  show eq: "encrypt rnd' t options' q =
            (case encrypt rnd' (trim t) (Some opts) q2 of
               None \<Rightarrow> None
             | Some (Inl err) \<Rightarrow> Some (Inl (EncodingError err))
             | Some (Inr (r, q')) \<Rightarrow> Some (Inr (None, q')))"
  proof -
    have o: "(case options' of None \<Rightarrow> defaultOptions | Some opts \<Rightarrow> opts) = opts"
      using a by simp
    show ?thesis
      by (rule encrypt_retry [of rnd' q options' rc0 q1 rc1 q2 t d, unfolded o]) (use a in blast)+
  qed
  show "encrypt rnd' t options' q \<noteq> Some (Inr (Some c', p''))"
    unfolding eq by (simp split: option.splits sum.splits prod.splits)
qed

theorem encrypt_never_unverified_witness:
  "encrypt (steady 0) (str ''hi'')
     (Some \<lparr>firstRandomCharSet = None, secondRandomCharSet = None, key = Some (str ''k'')\<rparr>) 0
   = Some (Inr (Some (candidate (str ''hi'') (str ''A'') (str ''A'') (Some (str ''k''))), 4))
   \<and> decrypt (candidate (str ''hi'') (str ''A'') (str ''A'') (Some (str ''k''))) (Some (Key (str ''k'')))
     = Inr (str ''hi'')
   \<and> tokenGenerator two_tries \<lfloor>two_tries 0 * (5 + 15) + 1\<rfloor> None (Suc 0) = Some ([0x41, 0x41], 3)
   \<and> tokenGenerator two_tries \<lfloor>two_tries 3 * (5 + 15) + 1\<rfloor> None (Suc 3) = Some ([0x41], 5)
   \<and> decrypt (candidate [0xD7EB] [0x41, 0x41] [0x41] (Some (str ''v''))) (Some (Key (str ''v'')))
     = Inr [0xFFE8]
   \<and> encrypt two_tries [0xD7EB]
       (Some \<lparr>firstRandomCharSet = None, secondRandomCharSet = None, key = Some (str ''v'')\<rparr>) 5
     = Some (Inr (Some (candidate [0xD7EB] [0x41] [0x41] (Some (str ''v''))), 9))
   \<and> decrypt (candidate [0xD7EB] [0x41] [0x41] (Some (str ''v''))) (Some (Key (str ''v'')))
     = Inr [0xD7EB]
   \<and> encrypt two_tries [0xD7EB]
       (Some \<lparr>firstRandomCharSet = None, secondRandomCharSet = None, key = Some (str ''v'')\<rparr>) 0
     = Some (Inr (None, 9))
   \<and> encrypt (steady 0) [0xD7EB]
       (Some \<lparr>firstRandomCharSet = None, secondRandomCharSet = None, key = Some (str ''v'')\<rparr>) 5
     = encrypt two_tries [0xD7EB]
       (Some \<lparr>firstRandomCharSet = None, secondRandomCharSet = None, key = Some (str ''v'')\<rparr>) 5"
proof -
  let ?k = "\<lparr>firstRandomCharSet = None, secondRandomCharSet = None, key = Some (str ''k'')\<rparr>"
  let ?v = "\<lparr>firstRandomCharSet = None, secondRandomCharSet = None, key = Some (str ''v'')\<rparr>"
  have e: "encrypt (steady 0) (str ''hi'') (Some ?k) 0
      = Some (Inr (Some (candidate (str ''hi'') (str ''A'') (str ''A'') (Some (str ''k''))), 4))"
    using encrypt_steady_0 [OF tst, of "Some (str ''k'')" 0] by (simp add: hi(2))
  have g: "\<forall>i\<ge>5. steady 0 i = two_tries i" by (simp add: steady_def two_tries_def)
  have ne: "[0xFFE8] \<noteq> trim [0xD7EB :: 16 word]" by (simp add: trim_D7EB)
  note inst = encrypt_never_unverified [of "steady 0" "str ''hi''" "Some ?k" 0
      "candidate (str ''hi'') (str ''A'') (str ''A'') (Some (str ''k''))" 4
      ?v "Some ?v" two_tries 0 "[0x41, 0x41]" 3 "[0x41]" 5 "[0xD7EB]" "[0xFFE8]" "[]" 0
      5 "steady 0" two_tries "[0xD7EB]" "Some ?v"]
  have d: "decrypt (candidate (str ''hi'') (str ''A'') (str ''A'') (Some (str ''k''))) (Some (Key (str ''k'')))
     = Inr (str ''hi'')"
    using inst e by (simp add: key_of_def hi(2))
  have r: "encrypt two_tries [0xD7EB] (Some ?v) 0 = Some (Inr (None, 9))"
    using inst first_try(1,2) check_fails ne second_try
    by (simp add: trim_D7EB key_of_def)
  have f: "encrypt (steady 0) [0xD7EB] (Some ?v) 5 = encrypt two_tries [0xD7EB] (Some ?v) 5"
    using inst g by blast
  show ?thesis
    using e d first_try(1,2) check_fails second_try check_passes r f by blast
qed

section \<open>Properties of isEqual\<close>





section \<open>Properties of encryptObject and decryptObject\<close>

lemma plain_simps [simp]:
  "plain (JArray xs) = list_all plain xs"
  "plain (JObject kvs) =
     (distinct (map fst kvs) \<and> str ''__proto__'' \<notin> set (map fst kvs)
      \<and> list_all (\<lambda>(k, v). plain v) kvs)"
  "plain (JString s)" "plain (JNumber n)" "plain (JBoolean b)" "plain JNull" "plain JUndefined"
  "plain JFunction"
proof -
  have "fst \<circ> (\<lambda>(k, v). (k, shape_of v)) = (fst :: jsstring \<times> jsvalue \<Rightarrow> jsstring)"
    by (auto simp: fun_eq_iff)
  then show "plain (JObject kvs) =
     (distinct (map fst kvs) \<and> str ''__proto__'' \<notin> set (map fst kvs)
      \<and> list_all (\<lambda>(k, v). plain v) kvs)"
    by (simp add: plain_def list_all_iff split_beta)
qed (simp_all add: plain_def list_all_iff)

lemma bind_run_Inr:
  assumes "bind_run m f = Some (Inr y)"
  obtains x q where "m = Some (Inr (x, q))" "f x q = Some (Inr y)"
  using assms by (auto simp: bind_run_def split: option.splits sum.splits prod.splits)

lemma return_run_Inr [simp]: "return_run x p = Some (Inr (r, p')) \<longleftrightarrow> r = x \<and> p' = p"
  by (auto simp: return_run_def)

lemma encrypt_leaf_shape: "encrypt_leaf rnd s k p = Some (Inr (x, q)) \<Longrightarrow> shape_of x = Leaf"
  by (auto simp: encrypt_leaf_def elim!: bind_run_Inr split: option.splits)

lemma assign_fresh: "k \<notin> fst ` set kvs \<Longrightarrow> assign kvs k v = kvs @ [(k, v)]"
  by (induction kvs) auto

lemma set_property_fresh:
  "k \<notin> fst ` set kvs \<Longrightarrow> k \<noteq> str ''__proto__'' \<Longrightarrow> set_property kvs k v = kvs @ [(k, v)]"
  by (simp add: set_property_def assign_fresh)

lemma get_property_single:
  "shape_of r = Mapping [(k, sh)] \<Longrightarrow> shape_of (get_property r k) = sh"
  by (cases r) (auto simp: get_property_def)

lemma arr_not_proto: "str ''arr'' \<noteq> str ''__proto__''"
  by (simp add: str_def)

lemma encrypt_shape:
  "plain data \<Longrightarrow> encryptObject rnd data k p = Some (Inr (r, p')) \<Longrightarrow>
     (\<exists>kvs. data = JObject kvs) \<Longrightarrow> shape_of r = shape_of data"
  "list_all (\<lambda>(n, v). plain v) kvs \<Longrightarrow> distinct (map fst acc @ map fst kvs) \<Longrightarrow>
     str ''__proto__'' \<notin> set (map fst kvs) \<Longrightarrow>
     encrypt_entries rnd kvs ky acc p = Some (Inr (e, p')) \<Longrightarrow>
     shapes e = shapes acc @ shapes kvs"
  "list_all plain items \<Longrightarrow> encrypt_items rnd items ky p = Some (Inr (xs, p')) \<Longrightarrow>
     map shape_of xs = map shape_of items"
  "list_all plain subItems \<Longrightarrow> encrypt_subItems rnd subItems ky p = Some (Inr (xs, p')) \<Longrightarrow>
     map shape_of xs = map shape_of subItems"
proof (induction rnd data k p and rnd kvs ky acc p and rnd items ky p and rnd subItems ky p
    arbitrary: r p' and e p' and xs p' and xs p'
    rule: encryptObject_encrypt_entries_encrypt_items_encrypt_subItems.induct)
  case (1 rnd data k p)
  then obtain kvs where data: "data = JObject kvs" by blast
  let ?kk = "case k of None \<Rightarrow> defaultKey | Some k \<Rightarrow> k"
  from 1(3) obtain e q where e: "encrypt_entries rnd kvs ?kk [] p = Some (Inr (e, q))"
      and r: "r = JObject e"
    by (auto simp: data entries_def Let_def elim!: bind_run_Inr)
  have "shapes e = shapes [] @ shapes kvs"
  proof (rule 1(1) [OF refl _ _ _ _ e])
    show "entries data = Inr kvs" by (simp add: data entries_def)
    show "list_all (\<lambda>(n, v). plain v) kvs" using 1(2) by (simp add: data)
    show "distinct (map fst [] @ map fst kvs)" using 1(2) by (simp add: data)
    show "str ''__proto__'' \<notin> set (map fst kvs)" using 1(2) by (simp add: data)
  qed
  then show ?case by (simp add: r data)
next
  case (2 rnd k encryptedData p)
  then show ?case by simp
next
  case (3 rnd name v rest k acc p)
  from 3(8) obtain x q where
    x: "(case v of
          JString s \<Rightarrow> encrypt_leaf rnd (trim s) k p
        | JNumber n \<Rightarrow> encrypt_leaf rnd (trim (String_number n)) k p
        | JBoolean b \<Rightarrow> encrypt_leaf rnd (trim (String_boolean b)) k p
        | JArray items \<Rightarrow> bind_run (encrypt_items rnd items k p) (\<lambda>encryptedArray. return_run (JArray encryptedArray))
        | JObject kvs \<Rightarrow> encryptObject rnd v (Some k) p
        | JNull \<Rightarrow> encryptObject rnd v (Some k) p
        | _ \<Rightarrow> return_run v p) = Some (Inr (x, q))"
    and rest: "encrypt_entries rnd rest k (set_property acc name x) q = Some (Inr (e, p'))"
    by (auto elim!: bind_run_Inr)
  have pv: "plain v" using 3(5) by simp
  have sx: "shape_of x = shape_of v"
  proof (cases v)
    case (JArray items)
    with x obtain ys q' where ys: "encrypt_items rnd items k p = Some (Inr (ys, q'))" "x = JArray ys"
      by (auto elim!: bind_run_Inr)
    have "map shape_of ys = map shape_of items"
      using 3(2) [OF JArray _ ys(1)] pv JArray by simp
    then show ?thesis by (simp add: ys(2) JArray)
  next
    case (JObject kvs)
    with x have "encryptObject rnd v (Some k) p = Some (Inr (x, q))" by simp
    then show ?thesis using 3(3) [OF JObject pv] JObject by blast
  next
    case JNull
    with x show ?thesis by (simp add: entries_def)
  qed (use x in \<open>auto dest: encrypt_leaf_shape\<close>)
  have fresh: "name \<notin> fst ` set acc" "name \<noteq> str ''__proto__''" using 3(6,7) by auto
  have "shapes e = shapes (set_property acc name x) @ shapes rest"
  proof (rule 3(4) [OF _ _ _ rest])
    show "list_all (\<lambda>(n, v). plain v) rest" using 3(5) by simp
    show "distinct (map fst (set_property acc name x) @ map fst rest)"
      using 3(6) by (auto simp: set_property_fresh [OF fresh])
    show "str ''__proto__'' \<notin> set (map fst rest)" using 3(7) by simp
  qed
  then show ?case by (simp add: set_property_fresh [OF fresh] sx)
next
  case (4 rnd k p)
  then show ?case by simp
next
  case (5 rnd item rest k p)
  from 5(6) obtain x q ys q' where
    x: "(case item of
          JString s \<Rightarrow> encrypt_leaf rnd s k p
        | JNumber n \<Rightarrow> encrypt_leaf rnd (String_number n) k p
        | JArray subItems \<Rightarrow> bind_run (encrypt_subItems rnd subItems k p) (\<lambda>r. return_run (JArray r))
        | JObject kvs \<Rightarrow> encryptObject rnd item (Some k) p
        | JNull \<Rightarrow> encryptObject rnd item (Some k) p
        | _ \<Rightarrow> return_run item p) = Some (Inr (x, q))"
    and rest: "encrypt_items rnd rest k q = Some (Inr (ys, q'))" and xs: "xs = x # ys"
    by (auto elim!: bind_run_Inr)
  have pv: "plain item" using 5(5) by simp
  have sx: "shape_of x = shape_of item"
  proof (cases item)
    case (JArray subItems)
    with x obtain zs q'' where zs: "encrypt_subItems rnd subItems k p = Some (Inr (zs, q''))" "x = JArray zs"
      by (auto elim!: bind_run_Inr)
    have "map shape_of zs = map shape_of subItems"
      using 5(2) [OF JArray _ zs(1)] pv JArray by simp
    then show ?thesis by (simp add: zs(2) JArray)
  next
    case (JObject kvs)
    with x have "encryptObject rnd item (Some k) p = Some (Inr (x, q))" by simp
    then show ?thesis using 5(3) [OF JObject pv] JObject by blast
  next
    case JNull
    with x show ?thesis by (simp add: entries_def)
  qed (use x in \<open>auto dest: encrypt_leaf_shape\<close>)
  have "map shape_of ys = map shape_of rest" using 5(4) [OF _ rest] 5(5) by simp
  then show ?case by (simp add: xs sx)
next
  case (6 rnd k p)
  then show ?case by simp
next
  case (7 rnd subItem rest k p)
  from 7(6) obtain x q ys q' where
    x: "(case subItem of
          JString s \<Rightarrow> encrypt_leaf rnd s k p
        | JNumber n \<Rightarrow> encrypt_leaf rnd (String_number n) k p
        | JArray xs \<Rightarrow>
            bind_run (encryptObject rnd (JObject [(str ''arr'', subItem)]) (Some k) p)
              (\<lambda>r. return_run (get_property r (str ''arr'')))
        | JObject kvs \<Rightarrow> encryptObject rnd subItem (Some k) p
        | JNull \<Rightarrow> encryptObject rnd subItem (Some k) p
        | _ \<Rightarrow> return_run subItem p) = Some (Inr (x, q))"
    and rest: "encrypt_subItems rnd rest k q = Some (Inr (ys, q'))" and xs: "xs = x # ys"
    by (auto elim!: bind_run_Inr)
  have pv: "plain subItem" using 7(5) by simp
  have sx: "shape_of x = shape_of subItem"
  proof (cases subItem)
    case (JArray zs)
    with x obtain w q'' where
      w: "encryptObject rnd (JObject [(str ''arr'', subItem)]) (Some k) p = Some (Inr (w, q''))"
        "x = get_property w (str ''arr'')"
      by (auto elim!: bind_run_Inr)
    have "plain (JObject [(str ''arr'', subItem)])" using pv arr_not_proto by simp
    then have "shape_of w = shape_of (JObject [(str ''arr'', subItem)])"
      using 7(2) [OF JArray _ w(1)] by blast
    then show ?thesis by (simp add: w(2) get_property_single)
  next
    case (JObject kvs)
    with x have "encryptObject rnd subItem (Some k) p = Some (Inr (x, q))" by simp
    then show ?thesis using 7(3) [OF JObject pv] JObject by blast
  next
    case JNull
    with x show ?thesis by (simp add: entries_def)
  qed (use x in \<open>auto dest: encrypt_leaf_shape\<close>)
  have "map shape_of ys = map shape_of rest" using 7(4) [OF _ rest] 7(5) by simp
  then show ?case by (simp add: xs sx)
qed

lemma bind_sum_Inr:
  assumes "bind_sum m f = Inr y"
  obtains x where "m = Inr x" "f x = Inr y"
  using assms by (auto simp: bind_sum_def split: sum.splits)

lemma decrypt_leaf_shape: "decrypt_leaf s k = Inr x \<Longrightarrow> shape_of x = Leaf"
  by (auto simp: decrypt_leaf_def elim!: bind_sum_Inr)

lemma decrypt_shape:
  "plain data \<Longrightarrow> decryptObject data k = Inr r \<Longrightarrow>
     (\<exists>kvs. data = JObject kvs) \<Longrightarrow> shape_of r = shape_of data"
  "list_all (\<lambda>(n, v). plain v) kvs \<Longrightarrow> distinct (map fst acc @ map fst kvs) \<Longrightarrow>
     str ''__proto__'' \<notin> set (map fst kvs) \<Longrightarrow>
     decrypt_entries kvs ky acc = Inr e \<Longrightarrow>
     shapes e = shapes acc @ shapes kvs"
  "list_all plain items \<Longrightarrow> decrypt_items items ky = Inr xs \<Longrightarrow>
     map shape_of xs = map shape_of items"
  "list_all plain subItems \<Longrightarrow> decrypt_subItems subItems ky = Inr xs \<Longrightarrow>
     map shape_of xs = map shape_of subItems"
proof (induction data k and kvs ky acc and items ky and subItems ky
    arbitrary: r and e and xs and xs
    rule: decryptObject_decrypt_entries_decrypt_items_decrypt_subItems.induct)
  case (1 data k)
  then obtain kvs where data: "data = JObject kvs" by blast
  let ?kk = "case k of None \<Rightarrow> defaultKey | Some k \<Rightarrow> k"
  from 1(3) obtain e where e: "decrypt_entries kvs ?kk [] = Inr e" and r: "r = JObject e"
    by (auto simp: data entries_def Let_def elim!: bind_sum_Inr)
  have "shapes e = shapes [] @ shapes kvs"
  proof (rule 1(1) [OF refl _ _ _ _ e])
    show "entries data = Inr kvs" by (simp add: data entries_def)
    show "list_all (\<lambda>(n, v). plain v) kvs" using 1(2) by (simp add: data)
    show "distinct (map fst [] @ map fst kvs)" using 1(2) by (simp add: data)
    show "str ''__proto__'' \<notin> set (map fst kvs)" using 1(2) by (simp add: data)
  qed
  then show ?case by (simp add: r data)
next
  case (2 k decryptedData)
  then show ?case by simp
next
  case (3 name v rest k acc)
  from 3(8) obtain x where
    x: "(case v of
          JString s \<Rightarrow> decrypt_leaf (trim s) k
        | JArray items \<Rightarrow> bind_sum (decrypt_items items k) (\<lambda>decryptedArray. Inr (JArray decryptedArray))
        | JObject kvs \<Rightarrow> decryptObject v (Some k)
        | JNull \<Rightarrow> decryptObject v (Some k)
        | _ \<Rightarrow> Inr v) = Inr x"
    and rest: "decrypt_entries rest k (set_property acc name x) = Inr e"
    by (auto elim!: bind_sum_Inr)
  have pv: "plain v" using 3(5) by simp
  have sx: "shape_of x = shape_of v"
  proof (cases v)
    case (JArray items)
    with x obtain ys where ys: "decrypt_items items k = Inr ys" "x = JArray ys"
      by (auto elim!: bind_sum_Inr)
    have "map shape_of ys = map shape_of items"
      using 3(2) [OF JArray _ ys(1)] pv JArray by simp
    then show ?thesis by (simp add: ys(2) JArray)
  next
    case (JObject kvs)
    with x have "decryptObject v (Some k) = Inr x" by simp
    then show ?thesis using 3(3) [OF JObject pv] JObject by blast
  next
    case JNull
    with x show ?thesis by (simp add: entries_def)
  qed (use x in \<open>auto dest: decrypt_leaf_shape\<close>)
  have fresh: "name \<notin> fst ` set acc" "name \<noteq> str ''__proto__''" using 3(6,7) by auto
  have "shapes e = shapes (set_property acc name x) @ shapes rest"
  proof (rule 3(4) [OF _ _ _ rest])
    show "list_all (\<lambda>(n, v). plain v) rest" using 3(5) by simp
    show "distinct (map fst (set_property acc name x) @ map fst rest)"
      using 3(6) by (auto simp: set_property_fresh [OF fresh])
    show "str ''__proto__'' \<notin> set (map fst rest)" using 3(7) by simp
  qed
  then show ?case by (simp add: set_property_fresh [OF fresh] sx)
next
  case (4 k)
  then show ?case by simp
next
  case (5 item rest k)
  from 5(6) obtain x ys where
    x: "(case item of
          JString s \<Rightarrow> decrypt_leaf s k
        | JArray subItems \<Rightarrow> bind_sum (decrypt_subItems subItems k) (\<lambda>r. Inr (JArray r))
        | JObject kvs \<Rightarrow> decryptObject item (Some k)
        | JNull \<Rightarrow> decryptObject item (Some k)
        | _ \<Rightarrow> Inr item) = Inr x"
    and rest: "decrypt_items rest k = Inr ys" and xs: "xs = x # ys"
    by (auto elim!: bind_sum_Inr)
  have pv: "plain item" using 5(5) by simp
  have sx: "shape_of x = shape_of item"
  proof (cases item)
    case (JArray subItems)
    with x obtain zs where zs: "decrypt_subItems subItems k = Inr zs" "x = JArray zs"
      by (auto elim!: bind_sum_Inr)
    have "map shape_of zs = map shape_of subItems"
      using 5(2) [OF JArray _ zs(1)] pv JArray by simp
    then show ?thesis by (simp add: zs(2) JArray)
  next
    case (JObject kvs)
    with x have "decryptObject item (Some k) = Inr x" by simp
    then show ?thesis using 5(3) [OF JObject pv] JObject by blast
  next
    case JNull
    with x show ?thesis by (simp add: entries_def)
  qed (use x in \<open>auto dest: decrypt_leaf_shape\<close>)
  have "map shape_of ys = map shape_of rest" using 5(4) [OF _ rest] 5(5) by simp
  then show ?case by (simp add: xs sx)
next
  case (6 k)
  then show ?case by simp
next
  case (7 subItem rest k)
  from 7(6) obtain x ys where
    x: "(case subItem of
          JString s \<Rightarrow> decrypt_leaf s k
        | JArray xs \<Rightarrow>
            bind_sum (decryptObject (JObject [(str ''arr'', subItem)]) (Some k))
              (\<lambda>r. Inr (get_property r (str ''arr'')))
        | JObject kvs \<Rightarrow> decryptObject subItem (Some k)
        | JNull \<Rightarrow> decryptObject subItem (Some k)
        | _ \<Rightarrow> Inr subItem) = Inr x"
    and rest: "decrypt_subItems rest k = Inr ys" and xs: "xs = x # ys"
    by (auto elim!: bind_sum_Inr)
  have pv: "plain subItem" using 7(5) by simp
  have sx: "shape_of x = shape_of subItem"
  proof (cases subItem)
    case (JArray zs)
    with x obtain w where
      w: "decryptObject (JObject [(str ''arr'', subItem)]) (Some k) = Inr w"
        "x = get_property w (str ''arr'')"
      by (auto elim!: bind_sum_Inr)
    have "plain (JObject [(str ''arr'', subItem)])" using pv arr_not_proto by simp
    then have "shape_of w = shape_of (JObject [(str ''arr'', subItem)])"
      using 7(2) [OF JArray _ w(1)] by blast
    then show ?thesis by (simp add: w(2) get_property_single)
  next
    case (JObject kvs)
    with x have "decryptObject subItem (Some k) = Inr x" by simp
    then show ?thesis using 7(3) [OF JObject pv] JObject by blast
  next
    case JNull
    with x show ?thesis by (simp add: entries_def)
  qed (use x in \<open>auto dest: decrypt_leaf_shape\<close>)
  have "map shape_of ys = map shape_of rest" using 7(4) [OF _ rest] 7(5) by simp
  then show ?case by (simp add: xs sx)
qed

lemma encrypt_leaf_steady_0:
  assumes "\<forall>c\<in>set (trim s). unat c < 0x8000"
  shows "encrypt_leaf (steady 0) s k p
    = Some (Inr (JString (candidate (trim s) (str ''A'') (str ''A'') (Some k)), Suc (Suc (Suc (Suc p)))))"
  by (simp add: encrypt_leaf_def encrypt_steady_0 [OF assms] bind_run_def return_run_def)

lemma trim_candidate: "trim (candidate s r0 r1 k) = candidate s r0 r1 k"
  by (simp add: candidate_def Let_def trim_base64Encode)

lemma decrypt_leaf_candidate:
  assumes "\<forall>c\<in>set s. unat c < 0x8000"
  shows "decrypt_leaf (candidate s (str ''A'') (str ''A'') (Some k)) k = Inr (JString s)"
proof -
  have a: "\<forall>c\<in>set (str ''A''). unat c < 0x8000" "length (str ''A'') < 0x8000"
    by (simp_all add: str_def)
  have "decrypt (candidate s (str ''A'') (str ''A'') (Some k)) (Some (key_of (Some k))) = Inr s"
    using assms a a by (rule decrypt_candidate)
  then show ?thesis by (simp add: decrypt_leaf_def bind_sum_def key_of_def)
qed

lemma small_strings:
  "\<forall>c\<in>set (str ''hi''). unat c < 0x8000" "\<forall>c\<in>set (str ''1''). unat c < 0x8000"
  "\<forall>c\<in>set (str ''true''). unat c < 0x8000"
  by (simp_all add: str_def)

lemma trims:
  "trim (str ''hi'') = str ''hi''" "trim (str ''1'') = str ''1''" "trim (str ''true'') = str ''true''"
  by (simp_all add: str_def trim_def is_ws_def)

lemma String_examples: "String_number 1 = str ''1''" "String_boolean True = str ''true''"
  by (simp_all add: String_number_def String_boolean_def u16_def str_def)

lemma names:
  "str ''a'' \<noteq> str ''__proto__''" "str ''b'' \<noteq> str ''__proto__''" "str ''c'' \<noteq> str ''__proto__''"
  "str ''a'' \<noteq> str ''b''"
  by (simp_all add: str_def)

lemma boolean_in_array:
  "encryptObject rnd (JObject [(str ''a'', JArray [JBoolean True])]) k p
     = Some (Inr (JObject [(str ''a'', JArray [JBoolean True])], p))"
  by (simp add: entries_def bind_run_def return_run_def set_property_def names)

lemma boolean_in_object:
  "encryptObject (steady 0) (JObject [(str ''a'', JBoolean True)]) (Some k) 0
     = Some (Inr (JObject [(str ''a'',
          JString (candidate (str ''true'') (str ''A'') (str ''A'') (Some k)))], 4))"
proof -
  have "\<forall>c\<in>set (trim (trim (String_boolean True))). unat c < 0x8000"
    by (simp add: String_examples trims small_strings)
  from encrypt_leaf_steady_0 [OF this, of k 0] show ?thesis
    by (simp add: entries_def bind_run_def return_run_def set_property_def names
        String_examples trims)
qed

lemma encrypt_example:
  "encryptObject (steady 0) example_object (Some k) 0 = Some (Inr (example_encrypted k, 12))"
proof -
  have e1: "encrypt_leaf (steady 0) (str ''hi'') k 0
      = Some (Inr (JString (candidate (str ''hi'') (str ''A'') (str ''A'') (Some k)), 4))"
    using encrypt_leaf_steady_0 [of "str ''hi''" k 0] by (simp add: trims small_strings)
  have e2: "encrypt_leaf (steady 0) (str ''1'') k 4
      = Some (Inr (JString (candidate (str ''1'') (str ''A'') (str ''A'') (Some k)), 8))"
    using encrypt_leaf_steady_0 [of "str ''1''" k 4] by (simp add: trims small_strings)
  have e3: "encrypt_leaf (steady 0) (str ''true'') k 8
      = Some (Inr (JString (candidate (str ''true'') (str ''A'') (str ''A'') (Some k)), 12))"
    using encrypt_leaf_steady_0 [of "str ''true''" k 8] by (simp add: trims small_strings)
  show ?thesis
    by (simp add: example_object_def example_encrypted_def entries_def bind_run_def return_run_def
        set_property_def names String_examples trims e1 e2 e3)
qed

lemma decrypt_example: "decryptObject (example_encrypted k) (Some k) = Inr example_decrypted"
  by (simp add: example_encrypted_def example_decrypted_def entries_def bind_sum_def
      set_property_def names trim_candidate decrypt_leaf_candidate small_strings)

lemma plain_examples: "plain example_object" "plain (example_encrypted k)"
  by (simp_all add: example_object_def example_encrypted_def names names [symmetric])

subsection \<open>The walks return\<close>

lemma digits_small: "c \<in> set (digits n) \<Longrightarrow> unat c < 0x80"
proof (induction n rule: digits.induct)
  case (1 n)
  show ?case
  proof (cases "n < 10")
    case True
    with 1(2) show ?thesis by (subst (asm) digits.simps) (simp add: unat_u16 del: digits.simps)
  next
    case False
    have "n mod 10 < 10" by simp
    then have "unat (u16 (48 + n mod 10)) < 0x80" by (simp add: unat_u16)
    with 1 False show ?thesis by (subst (asm) (2) digits.simps) (auto simp del: digits.simps)
  qed
qed

lemma String_number_small: "c \<in> set (String_number n) \<Longrightarrow> unat c < 0x80"
  by (auto simp: String_number_def str_def simp del: digits.simps dest: digits_small split: if_splits)

lemma String_boolean_small: "c \<in> set (String_boolean b) \<Longrightarrow> unat c < 0x80"
  by (auto simp: String_boolean_def str_def split: if_splits)

lemma trim_small: "(\<And>c. c \<in> set s \<Longrightarrow> unat c < 0x80) \<Longrightarrow> \<forall>c\<in>set (trim s). unat c < 0x8000"
  using set_trim [of s] by fastforce

lemma dropWhile_id: "xs = [] \<or> \<not> P (hd xs) \<Longrightarrow> dropWhile P xs = xs"
  by (cases xs) auto

lemma trim_trim: "trim (trim s) = trim s"
proof -
  define t where "t = dropWhile is_ws s"
  define v where "v = dropWhile is_ws (rev t)"
  have t: "t = [] \<or> \<not> is_ws (hd t)" unfolding t_def using hd_dropWhile [of is_ws s] by blast
  have v: "v = [] \<or> \<not> is_ws (hd v)" unfolding v_def using hd_dropWhile [of is_ws "rev t"] by blast
  have tr: "trim s = rev v" by (simp add: trim_def t_def v_def)
  have hd_rev: "rev v = [] \<or> \<not> is_ws (hd (rev v))"
  proof (cases "v = []")
    case False
    obtain pre where pre: "rev t = pre @ v"
      unfolding v_def by (metis takeWhile_dropWhile_id)
    then have "t = rev v @ rev pre" by (metis rev_append rev_rev_ident)
    then have "hd t = hd (rev v)" using False by (simp add: hd_append)
    moreover have "t \<noteq> []" using pre False by auto
    ultimately show ?thesis using t by simp
  qed simp
  have "dropWhile is_ws (rev v) = rev v" using hd_rev by (rule dropWhile_id)
  moreover have "dropWhile is_ws (rev (rev v)) = v" using v by (simp add: dropWhile_id)
  ultimately show ?thesis by (simp add: tr) (simp add: trim_def)
qed

lemma decrypt_trim: "decrypt (trim s) options = decrypt s options"
  by (simp add: decrypt_def trim_trim)

lemma encrypt_leaf_returns:
  assumes "draws rnd" "redraw_ends rnd (resolve_set None)" "\<forall>c\<in>set (trim s). unat c < 0x8000"
  shows "\<exists>c q. encrypt_leaf rnd s k p = Some (Inr (JString c, q))
           \<and> decrypt c (Some (Key k)) = Inr (trim s)"
proof -
  obtain c q where "encrypt rnd s
        (Some \<lparr>firstRandomCharSet = None, secondRandomCharSet = None, key = Some k\<rparr>) p
      = Some (Inr (Some c, q))" "decrypt c (Some (Key k)) = Inr (trim s)"
    using encrypt_returns [of s rnd
        "Some \<lparr>firstRandomCharSet = None, secondRandomCharSet = None, key = Some k\<rparr>" p] assms
    by (auto simp: key_of_def)
  then show ?thesis by (simp add: encrypt_leaf_def bind_run_def)
qed

lemma encrypt_leaf_decryptable:
  assumes "draws rnd" "redraw_ends rnd (resolve_set None)" "\<And>c. c \<in> set s \<Longrightarrow> unat c < 0x80"
  shows "\<exists>x q. encrypt_leaf rnd s k p = Some (Inr (x, q)) \<and> decryptable k x"
proof -
  obtain c q where "encrypt_leaf rnd s k p = Some (Inr (JString c, q))"
      "decrypt c (Some (Key k)) = Inr (trim s)"
    using encrypt_leaf_returns [OF assms(1,2) trim_small [OF assms(3)]] by blast
  then show ?thesis by (intro exI [of _ "JString c"] exI [of _ q]) simp
qed

lemma encrypt_leaf_trim_decryptable:
  assumes "draws rnd" "redraw_ends rnd (resolve_set None)" "\<And>c. c \<in> set s \<Longrightarrow> unat c < 0x80"
  shows "\<exists>x q. encrypt_leaf rnd (trim s) k p = Some (Inr (x, q)) \<and> decryptable k x"
proof (rule encrypt_leaf_decryptable [OF assms(1,2)])
  fix c assume "c \<in> set (trim s)"
  then show "unat c < 0x80" using set_trim [of s] assms(3) by blast
qed

lemma list_all_assign:
  "list_all (\<lambda>(n, v). P v) kvs \<Longrightarrow> P x \<Longrightarrow> list_all (\<lambda>(n, v). P v) (assign kvs name x)"
  by (induction kvs) auto

lemma list_all_set_property:
  "list_all (\<lambda>(n, v). P v) kvs \<Longrightarrow> P x \<Longrightarrow> list_all (\<lambda>(n, v). P v) (set_property kvs name x)"
  by (simp add: set_property_def list_all_assign)

lemma decryptable_get_property: "decryptable k r \<Longrightarrow> decryptable k (get_property r a)"
proof (cases r)
  case (JObject kvs)
  assume "decryptable k r"
  then have "\<And>x. map_of kvs a = Some x \<Longrightarrow> decryptable k x"
    using JObject by (auto simp: list_all_iff dest: map_of_SomeD)
  then show ?thesis using JObject by (simp add: get_property_def split: option.splits)
qed (simp_all add: get_property_def)

lemma bind_run_returns:
  "m = Some (Inr (x, q)) \<Longrightarrow> bind_run m f = f x q"
  by (simp add: bind_run_def)

lemma encrypt_returns_walk:
  "draws rnd \<Longrightarrow> redraw_ends rnd (resolve_set None) \<Longrightarrow> encryptable data \<Longrightarrow>
     (\<exists>kvs. data = JObject kvs) \<Longrightarrow>
     \<exists>r p'. encryptObject rnd data k p = Some (Inr (r, p'))
       \<and> decryptable (case k of None \<Rightarrow> defaultKey | Some k \<Rightarrow> k) r"
  "draws rnd \<Longrightarrow> redraw_ends rnd (resolve_set None) \<Longrightarrow>
     list_all (\<lambda>(n, v). encryptable v) kvs \<Longrightarrow> list_all (\<lambda>(n, v). decryptable ky v) acc \<Longrightarrow>
     \<exists>e p'. encrypt_entries rnd kvs ky acc p = Some (Inr (e, p'))
       \<and> list_all (\<lambda>(n, v). decryptable ky v) e"
  "draws rnd \<Longrightarrow> redraw_ends rnd (resolve_set None) \<Longrightarrow> list_all encryptable items \<Longrightarrow>
     \<exists>xs p'. encrypt_items rnd items ky p = Some (Inr (xs, p')) \<and> list_all (decryptable ky) xs"
  "draws rnd \<Longrightarrow> redraw_ends rnd (resolve_set None) \<Longrightarrow> list_all encryptable subItems \<Longrightarrow>
     \<exists>xs p'. encrypt_subItems rnd subItems ky p = Some (Inr (xs, p')) \<and> list_all (decryptable ky) xs"
proof (induction rnd data k p and rnd kvs ky acc p and rnd items ky p and rnd subItems ky p
    rule: encryptObject_encrypt_entries_encrypt_items_encrypt_subItems.induct)
  case (1 rnd data k p)
  then obtain kvs where data: "data = JObject kvs" by blast
  let ?kk = "case k of None \<Rightarrow> defaultKey | Some k \<Rightarrow> k"
  have "entries data = Inr kvs" by (simp add: data entries_def)
  moreover have "list_all (\<lambda>(n, v). encryptable v) kvs" using 1(4) by (simp add: data)
  ultimately obtain e p' where e: "encrypt_entries rnd kvs ?kk [] p = Some (Inr (e, p'))"
      "list_all (\<lambda>(n, v). decryptable ?kk v) e"
    using 1(1) [OF refl _ 1(2,3), of kvs] by auto
  then show ?case
    by (intro exI [of _ "JObject e"] exI [of _ p'])
      (simp add: data entries_def Let_def bind_run_def)
next
  case (2 rnd k encryptedData p)
  then show ?case by simp
next
  case (3 rnd name v rest k acc p)
  have ev: "encryptable v" using 3(7) by simp
  have "\<exists>x q. (case v of
          JString s \<Rightarrow> encrypt_leaf rnd (trim s) k p
        | JNumber n \<Rightarrow> encrypt_leaf rnd (trim (String_number n)) k p
        | JBoolean b \<Rightarrow> encrypt_leaf rnd (trim (String_boolean b)) k p
        | JArray items \<Rightarrow> bind_run (encrypt_items rnd items k p) (\<lambda>encryptedArray. return_run (JArray encryptedArray))
        | JObject kvs \<Rightarrow> encryptObject rnd v (Some k) p
        | JNull \<Rightarrow> encryptObject rnd v (Some k) p
        | _ \<Rightarrow> return_run v p) = Some (Inr (x, q)) \<and> decryptable k x"
  proof (cases v)
    case (JString s)
    then show ?thesis
      using encrypt_leaf_trim_decryptable [OF 3(5,6), of s k p] ev
      by (simp add: printable_small)
  next
    case (JNumber n)
    then show ?thesis
      using encrypt_leaf_trim_decryptable [OF 3(5,6), of "String_number n" k p]
      by (simp add: String_number_small)
  next
    case (JBoolean b)
    then show ?thesis
      using encrypt_leaf_trim_decryptable [OF 3(5,6), of "String_boolean b" k p]
      by (simp add: String_boolean_small)
  next
    case (JArray items)
    then obtain ys q where "encrypt_items rnd items k p = Some (Inr (ys, q))"
        "list_all (decryptable k) ys"
      using 3(2) [OF JArray 3(5,6)] ev by auto
    then show ?thesis using JArray
      by (intro exI [of _ "JArray ys"] exI [of _ q]) (simp add: bind_run_def)
  next
    case (JObject kvs)
    then show ?thesis using 3(3) [OF JObject 3(5,6) ev] by simp
  next
    case JNull
    then show ?thesis using ev by simp
  qed simp_all
  then obtain x q where x: "(case v of
          JString s \<Rightarrow> encrypt_leaf rnd (trim s) k p
        | JNumber n \<Rightarrow> encrypt_leaf rnd (trim (String_number n)) k p
        | JBoolean b \<Rightarrow> encrypt_leaf rnd (trim (String_boolean b)) k p
        | JArray items \<Rightarrow> bind_run (encrypt_items rnd items k p) (\<lambda>encryptedArray. return_run (JArray encryptedArray))
        | JObject kvs \<Rightarrow> encryptObject rnd v (Some k) p
        | JNull \<Rightarrow> encryptObject rnd v (Some k) p
        | _ \<Rightarrow> return_run v p) = Some (Inr (x, q))" and dx: "decryptable k x"
    by blast
  have "list_all (\<lambda>(n, v). decryptable k v) (set_property acc name x)"
    using 3(8) dx by (rule list_all_set_property)
  moreover have "list_all (\<lambda>(n, v). encryptable v) rest" using 3(7) by simp
  ultimately obtain e p' where
    "encrypt_entries rnd rest k (set_property acc name x) q = Some (Inr (e, p'))"
    "list_all (\<lambda>(n, v). decryptable k v) e"
    using 3(4) [OF 3(5,6)] by blast
  then show ?case
    by (intro exI [of _ e] exI [of _ p'])
      (simp only: encrypt_entries.simps bind_run_returns [OF x] simp_thms)
next
  case (4 rnd k p)
  then show ?case by simp
next
  case (5 rnd item rest k p)
  have ev: "encryptable item" using 5(7) by simp
  have "\<exists>x q. (case item of
          JString s \<Rightarrow> encrypt_leaf rnd s k p
        | JNumber n \<Rightarrow> encrypt_leaf rnd (String_number n) k p
        | JArray subItems \<Rightarrow> bind_run (encrypt_subItems rnd subItems k p) (\<lambda>r. return_run (JArray r))
        | JObject kvs \<Rightarrow> encryptObject rnd item (Some k) p
        | JNull \<Rightarrow> encryptObject rnd item (Some k) p
        | _ \<Rightarrow> return_run item p) = Some (Inr (x, q)) \<and> decryptable k x"
  proof (cases item)
    case (JString s)
    then show ?thesis
      using encrypt_leaf_decryptable [OF 5(5,6), of s k p] ev by (simp add: printable_small)
  next
    case (JNumber n)
    then show ?thesis
      using encrypt_leaf_decryptable [OF 5(5,6), of "String_number n" k p]
      by (simp add: String_number_small)
  next
    case (JArray subItems)
    then obtain ys q where "encrypt_subItems rnd subItems k p = Some (Inr (ys, q))"
        "list_all (decryptable k) ys"
      using 5(2) [OF JArray 5(5,6)] ev by auto
    then show ?thesis using JArray
      by (intro exI [of _ "JArray ys"] exI [of _ q]) (simp add: bind_run_def)
  next
    case (JObject kvs)
    then show ?thesis using 5(3) [OF JObject 5(5,6) ev] by simp
  next
    case JNull
    then show ?thesis using ev by simp
  qed simp_all
  then obtain x q where x: "(case item of
          JString s \<Rightarrow> encrypt_leaf rnd s k p
        | JNumber n \<Rightarrow> encrypt_leaf rnd (String_number n) k p
        | JArray subItems \<Rightarrow> bind_run (encrypt_subItems rnd subItems k p) (\<lambda>r. return_run (JArray r))
        | JObject kvs \<Rightarrow> encryptObject rnd item (Some k) p
        | JNull \<Rightarrow> encryptObject rnd item (Some k) p
        | _ \<Rightarrow> return_run item p) = Some (Inr (x, q))" and dx: "decryptable k x"
    by blast
  have "list_all encryptable rest" using 5(7) by simp
  then obtain ys p' where ys: "encrypt_items rnd rest k q = Some (Inr (ys, p'))"
      "list_all (decryptable k) ys"
    using 5(4) [OF 5(5,6)] by blast
  show ?case
    by (intro exI [of _ "x # ys"] exI [of _ p'])
      (simp add: bind_run_returns [OF x] bind_run_returns [OF ys(1)] dx ys(2))
next
  case (6 rnd k p)
  then show ?case by simp
next
  case (7 rnd subItem rest k p)
  have ev: "encryptable subItem" using 7(7) by simp
  have "\<exists>x q. (case subItem of
          JString s \<Rightarrow> encrypt_leaf rnd s k p
        | JNumber n \<Rightarrow> encrypt_leaf rnd (String_number n) k p
        | JArray xs \<Rightarrow>
            bind_run (encryptObject rnd (JObject [(str ''arr'', subItem)]) (Some k) p)
              (\<lambda>r. return_run (get_property r (str ''arr'')))
        | JObject kvs \<Rightarrow> encryptObject rnd subItem (Some k) p
        | JNull \<Rightarrow> encryptObject rnd subItem (Some k) p
        | _ \<Rightarrow> return_run subItem p) = Some (Inr (x, q)) \<and> decryptable k x"
  proof (cases subItem)
    case (JString s)
    then show ?thesis
      using encrypt_leaf_decryptable [OF 7(5,6), of s k p] ev by (simp add: printable_small)
  next
    case (JNumber n)
    then show ?thesis
      using encrypt_leaf_decryptable [OF 7(5,6), of "String_number n" k p]
      by (simp add: String_number_small)
  next
    case (JArray zs)
    have "encryptable (JObject [(str ''arr'', subItem)])" using ev by simp
    then obtain w q where w: "encryptObject rnd (JObject [(str ''arr'', subItem)]) (Some k) p
        = Some (Inr (w, q))" "decryptable k w"
      using 7(2) [OF JArray 7(5,6)] by auto
    then show ?thesis using JArray
      by (intro exI [of _ "get_property w (str ''arr'')"] exI [of _ q])
        (simp add: bind_run_def return_run_def decryptable_get_property del: encryptObject.simps)
  next
    case (JObject kvs)
    then show ?thesis using 7(3) [OF JObject 7(5,6) ev] by simp
  next
    case JNull
    then show ?thesis using ev by simp
  qed simp_all
  then obtain x q where x: "(case subItem of
          JString s \<Rightarrow> encrypt_leaf rnd s k p
        | JNumber n \<Rightarrow> encrypt_leaf rnd (String_number n) k p
        | JArray xs \<Rightarrow>
            bind_run (encryptObject rnd (JObject [(str ''arr'', subItem)]) (Some k) p)
              (\<lambda>r. return_run (get_property r (str ''arr'')))
        | JObject kvs \<Rightarrow> encryptObject rnd subItem (Some k) p
        | JNull \<Rightarrow> encryptObject rnd subItem (Some k) p
        | _ \<Rightarrow> return_run subItem p) = Some (Inr (x, q))" and dx: "decryptable k x"
    by blast
  have "list_all encryptable rest" using 7(7) by simp
  then obtain ys p' where ys: "encrypt_subItems rnd rest k q = Some (Inr (ys, p'))"
      "list_all (decryptable k) ys"
    using 7(4) [OF 7(5,6)] by blast
  show ?case
    by (intro exI [of _ "x # ys"] exI [of _ p'])
      (simp add: bind_run_returns [OF x] bind_run_returns [OF ys(1)] dx ys(2))
qed

lemma bind_sum_returns: "m = Inr x \<Longrightarrow> bind_sum m f = f x"
  by (simp add: bind_sum_def)

lemma decrypt_leaf_returns:
  "decryptable k (JString s) \<Longrightarrow> \<exists>x. decrypt_leaf s k = Inr x"
  by (simp add: decrypt_leaf_def bind_sum_def split: sum.splits)

lemma decrypt_leaf_trim_returns:
  "decryptable k (JString s) \<Longrightarrow> \<exists>x. decrypt_leaf (trim s) k = Inr x"
  by (simp add: decrypt_leaf_def bind_sum_def decrypt_trim split: sum.splits)

lemma decrypt_returns_walk:
  "decryptable (case k of None \<Rightarrow> defaultKey | Some k \<Rightarrow> k) data \<Longrightarrow>
     (\<exists>kvs. data = JObject kvs) \<Longrightarrow> \<exists>r. decryptObject data k = Inr r"
  "list_all (\<lambda>(n, v). decryptable ky v) kvs \<Longrightarrow> \<exists>e. decrypt_entries kvs ky acc = Inr e"
  "list_all (decryptable ky) items \<Longrightarrow> \<exists>xs. decrypt_items items ky = Inr xs"
  "list_all (decryptable ky) subItems \<Longrightarrow> \<exists>xs. decrypt_subItems subItems ky = Inr xs"
proof (induction data k and kvs ky acc and items ky and subItems ky
    rule: decryptObject_decrypt_entries_decrypt_items_decrypt_subItems.induct)
  case (1 data k)
  then obtain kvs where data: "data = JObject kvs" by blast
  let ?kk = "case k of None \<Rightarrow> defaultKey | Some k \<Rightarrow> k"
  have "entries data = Inr kvs" by (simp add: data entries_def)
  moreover have "list_all (\<lambda>(n, v). decryptable ?kk v) kvs" using 1(2) by (simp add: data)
  ultimately obtain e where "decrypt_entries kvs ?kk [] = Inr e"
    using 1(1) [OF refl, of kvs] by auto
  then show ?case by (simp add: data entries_def Let_def bind_sum_def)
next
  case (2 k decryptedData)
  then show ?case by simp
next
  case (3 name v rest k acc)
  have dv: "decryptable k v" using 3(5) by simp
  have "\<exists>x. (case v of
          JString s \<Rightarrow> decrypt_leaf (trim s) k
        | JArray items \<Rightarrow> bind_sum (decrypt_items items k) (\<lambda>decryptedArray. Inr (JArray decryptedArray))
        | JObject kvs \<Rightarrow> decryptObject v (Some k)
        | JNull \<Rightarrow> decryptObject v (Some k)
        | _ \<Rightarrow> Inr v) = Inr x"
  proof (cases v)
    case (JString s)
    then show ?thesis using decrypt_leaf_trim_returns [of k s] dv by simp
  next
    case (JArray items)
    then obtain ys where "decrypt_items items k = Inr ys" using 3(2) [OF JArray] dv by auto
    then show ?thesis using JArray by (simp add: bind_sum_def)
  next
    case (JObject kvs)
    then show ?thesis using 3(3) [OF JObject] dv by simp
  next
    case JNull
    then show ?thesis using dv by simp
  qed simp_all
  then obtain x where x: "(case v of
          JString s \<Rightarrow> decrypt_leaf (trim s) k
        | JArray items \<Rightarrow> bind_sum (decrypt_items items k) (\<lambda>decryptedArray. Inr (JArray decryptedArray))
        | JObject kvs \<Rightarrow> decryptObject v (Some k)
        | JNull \<Rightarrow> decryptObject v (Some k)
        | _ \<Rightarrow> Inr v) = Inr x"
    by blast
  have "list_all (\<lambda>(n, v). decryptable k v) rest" using 3(5) by simp
  then obtain e where "decrypt_entries rest k (set_property acc name x) = Inr e"
    using 3(4) by blast
  then show ?case
    by (intro exI [of _ e]) (simp only: decrypt_entries.simps bind_sum_returns [OF x])
next
  case (4 k)
  then show ?case by simp
next
  case (5 item rest k)
  have dv: "decryptable k item" using 5(5) by simp
  have "\<exists>x. (case item of
          JString s \<Rightarrow> decrypt_leaf s k
        | JArray subItems \<Rightarrow> bind_sum (decrypt_subItems subItems k) (\<lambda>r. Inr (JArray r))
        | JObject kvs \<Rightarrow> decryptObject item (Some k)
        | JNull \<Rightarrow> decryptObject item (Some k)
        | _ \<Rightarrow> Inr item) = Inr x"
  proof (cases item)
    case (JString s)
    then show ?thesis using decrypt_leaf_returns [of k s] dv by simp
  next
    case (JArray subItems)
    then obtain ys where "decrypt_subItems subItems k = Inr ys" using 5(2) [OF JArray] dv by auto
    then show ?thesis using JArray by (simp add: bind_sum_def)
  next
    case (JObject kvs)
    then show ?thesis using 5(3) [OF JObject] dv by simp
  next
    case JNull
    then show ?thesis using dv by simp
  qed simp_all
  then obtain x where x: "(case item of
          JString s \<Rightarrow> decrypt_leaf s k
        | JArray subItems \<Rightarrow> bind_sum (decrypt_subItems subItems k) (\<lambda>r. Inr (JArray r))
        | JObject kvs \<Rightarrow> decryptObject item (Some k)
        | JNull \<Rightarrow> decryptObject item (Some k)
        | _ \<Rightarrow> Inr item) = Inr x"
    by blast
  have "list_all (decryptable k) rest" using 5(5) by simp
  then obtain ys where ys: "decrypt_items rest k = Inr ys" using 5(4) by blast
  show ?case
    by (intro exI [of _ "x # ys"])
      (simp add: bind_sum_returns [OF x] bind_sum_returns [OF ys])
next
  case (6 k)
  then show ?case by simp
next
  case (7 subItem rest k)
  have dv: "decryptable k subItem" using 7(5) by simp
  have "\<exists>x. (case subItem of
          JString s \<Rightarrow> decrypt_leaf s k
        | JArray xs \<Rightarrow>
            bind_sum (decryptObject (JObject [(str ''arr'', subItem)]) (Some k))
              (\<lambda>r. Inr (get_property r (str ''arr'')))
        | JObject kvs \<Rightarrow> decryptObject subItem (Some k)
        | JNull \<Rightarrow> decryptObject subItem (Some k)
        | _ \<Rightarrow> Inr subItem) = Inr x"
  proof (cases subItem)
    case (JString s)
    then show ?thesis using decrypt_leaf_returns [of k s] dv by simp
  next
    case (JArray zs)
    have "decryptable k (JObject [(str ''arr'', subItem)])" using dv by simp
    then obtain w where "decryptObject (JObject [(str ''arr'', subItem)]) (Some k) = Inr w"
      using 7(2) [OF JArray] by auto
    then show ?thesis using JArray
      by (simp add: bind_sum_def del: decryptObject.simps)
  next
    case (JObject kvs)
    then show ?thesis using 7(3) [OF JObject] dv by simp
  next
    case JNull
    then show ?thesis using dv by simp
  qed simp_all
  then obtain x where x: "(case subItem of
          JString s \<Rightarrow> decrypt_leaf s k
        | JArray xs \<Rightarrow>
            bind_sum (decryptObject (JObject [(str ''arr'', subItem)]) (Some k))
              (\<lambda>r. Inr (get_property r (str ''arr'')))
        | JObject kvs \<Rightarrow> decryptObject subItem (Some k)
        | JNull \<Rightarrow> decryptObject subItem (Some k)
        | _ \<Rightarrow> Inr subItem) = Inr x"
    by blast
  have "list_all (decryptable k) rest" using 7(5) by simp
  then obtain ys where ys: "decrypt_subItems rest k = Inr ys" using 7(4) by blast
  show ?case
    by (intro exI [of _ "x # ys"])
      (simp add: bind_sum_returns [OF x] bind_sum_returns [OF ys])
qed

lemma shape_Mapping: "shape_of r = Mapping m \<Longrightarrow> \<exists>e. r = JObject e"
  by (cases r) simp_all

lemma walk_returns:
  assumes "encryptable (JObject kvs)" "plain (JObject kvs)" "draws rnd"
    "redraw_ends rnd (resolve_set None)"
  shows "\<exists>r p' d. encryptObject rnd (JObject kvs) k p = Some (Inr (r, p'))
      \<and> shape_of r = shape_of (JObject kvs)
      \<and> decryptObject r k = Inr d \<and> shape_of d = shape_of (JObject kvs)"
proof -
  let ?kk = "case k of None \<Rightarrow> defaultKey | Some k \<Rightarrow> k"
  obtain r p' where r: "encryptObject rnd (JObject kvs) k p = Some (Inr (r, p'))"
      "decryptable ?kk r"
    using encrypt_returns_walk(1) [OF assms(3,4,1), of k p] by blast
  have sr: "shape_of r = shape_of (JObject kvs)"
    using encrypt_shape(1) [OF assms(2) r(1)] by blast
  then obtain e where e: "r = JObject e" using shape_Mapping [of r] by auto
  have pr: "plain r" using assms(2) sr by (simp only: plain_def)
  obtain d where d: "decryptObject r k = Inr d"
    using decrypt_returns_walk(1) [OF r(2)] e by blast
  have "shape_of d = shape_of r" using decrypt_shape(1) [OF pr d] e by blast
  then show ?thesis using r(1) sr d by auto
qed

lemma encryptable_example: "encryptable example_object"
  by (simp add: example_object_def printable_def str_def)

text \<open>
  C4, as amended. For an object \<open>v\<close> in which no object has a property named \<open>__proto__\<close>,
  and every key: when \<open>encryptObject(v, k)\<close> returns, its result has the shape of \<open>v\<close>, and
  when \<open>decryptObject(v, k)\<close> returns, its result has the shape of \<open>v\<close>: the same kind at
  every node, the same property names in the same order, the same length of every array.
  And when moreover \<open>v\<close> holds no \<open>null\<close> and only printable ASCII strings, and the
  redrawing of a leading \<open>0\<close> of the paddings ends, \<open>encryptObject(v, k)\<close> does return,
  and \<open>decryptObject\<close> of its result returns as well, both with the shape of \<open>v\<close>.
\<close>

theorem shape_preserved:
  "(plain (JObject kvs) \<and> encryptObject rnd (JObject kvs) k p = Some (Inr (r, p'))
      \<longrightarrow> shape_of r = shape_of (JObject kvs))
   \<and> (plain (JObject kvs') \<and> decryptObject (JObject kvs') k' = Inr r'
      \<longrightarrow> shape_of r' = shape_of (JObject kvs'))
   \<and> (plain (JObject kvs'') \<and> encryptable (JObject kvs'') \<and> draws rnd'
        \<and> redraw_ends rnd' (resolve_set None)
      \<longrightarrow> (\<exists>e q d. encryptObject rnd' (JObject kvs'') k'' p'' = Some (Inr (e, q))
            \<and> shape_of e = shape_of (JObject kvs'')
            \<and> decryptObject e k'' = Inr d \<and> shape_of d = shape_of (JObject kvs'')))"
  using encrypt_shape(1) [of "JObject kvs" rnd k p r p'] decrypt_shape(1) [of "JObject kvs'" k' r']
    walk_returns [of kvs'' rnd' k'' p'']
  by blast

theorem shape_preserved_witness:
  "plain example_object
   \<and> encryptObject (steady 0) example_object (Some (str ''k'')) 0
       = Some (Inr (example_encrypted (str ''k''), 12))
   \<and> shape_of (example_encrypted (str ''k'')) = shape_of example_object
   \<and> plain (example_encrypted (str ''k''))
   \<and> decryptObject (example_encrypted (str ''k'')) (Some (str ''k'')) = Inr example_decrypted
   \<and> shape_of example_decrypted = shape_of (example_encrypted (str ''k''))
   \<and> encryptable example_object \<and> draws (steady (1 / 2))
   \<and> redraw_ends (steady (1 / 2)) (resolve_set None)
   \<and> (\<exists>e q d. encryptObject (steady (1 / 2)) example_object None 0 = Some (Inr (e, q))
         \<and> shape_of e = shape_of example_object
         \<and> decryptObject e None = Inr d \<and> shape_of d = shape_of example_object)"
proof -
  obtain kvs where o: "example_object = JObject kvs" by (simp add: example_object_def)
  obtain kvs' where e: "example_encrypted (str ''k'') = JObject kvs'"
    by (simp add: example_encrypted_def)
  have half: "redraw_ends (steady (1 / 2)) (resolve_set None)"
    unfolding redraw_ends_def
  proof
    fix p
    have "random_char (steady (1 / 2)) (resolve_set None) p \<noteq> str ''0''"
      by (simp add: random_char_def steady_def resolve_set_def charAt_def str_def)
    then show "\<exists>q\<ge>p. random_char (steady (1 / 2)) (resolve_set None) q \<noteq> str ''0''" by blast
  qed
  have d: "draws (steady (1 / 2))" by (simp add: draws_steady)
  have "shape_of (example_encrypted (str ''k'')) = shape_of example_object
      \<and> shape_of example_decrypted = shape_of (example_encrypted (str ''k''))
      \<and> (\<exists>e q d. encryptObject (steady (1 / 2)) example_object None 0 = Some (Inr (e, q))
         \<and> shape_of e = shape_of example_object
         \<and> decryptObject e None = Inr d \<and> shape_of d = shape_of example_object)"
    using shape_preserved [of kvs "steady 0" "Some (str ''k'')" 0 "example_encrypted (str ''k'')" 12
        kvs' "Some (str ''k'')" example_decrypted kvs "steady (1 / 2)" None 0]
      plain_examples encrypt_example [of "str ''k''"] decrypt_example [of "str ''k''"]
      encryptable_example d half
    unfolding o [symmetric] e [symmetric] by blast
  then show ?thesis
    using plain_examples encrypt_example [of "str ''k''"] decrypt_example [of "str ''k''"]
      encryptable_example d half by blast
qed

text \<open>
  C4 as stated fails in four ways: \<open>decryptObject({a: ""}, k)\<close> raises, since \<open>decrypt("")\<close>
  does; \<open>encryptObject({a: null}, k)\<close> raises, since \<open>Object.entries(null)\<close> does;
  \<open>encryptObject([], k)\<close> returns the object \<open>{}\<close> for an array; and an own property named
  \<open>__proto__\<close> is lost.
\<close>

theorem shape_preserved_counterexample:
  "decryptObject (JObject [(str ''a'', JString [])]) (Some (str ''k'')) = Inl (DecodingError TypeError)
   \<and> encryptObject (steady 0) (JObject [(str ''a'', JNull)]) (Some (str ''k'')) 0 = Some (Inl TypeError)
   \<and> encryptObject (steady 0) (JArray []) (Some (str ''k'')) 0 = Some (Inr (JObject [], 0))
   \<and> decryptObject (JObject [(str ''__proto__'', JNumber 1)]) (Some (str ''k'')) = Inr (JObject [])"
proof (intro conjI)
  have "base64Decode [] k = []" for k
    by (simp add: base64Decode_def b64_decode_def utf8_decode_def)
  then have "decrypt [] (Some (Key (str ''k''))) = Inl (DecodingError TypeError)"
    by (simp add: decrypt_def trim_def)
  then show "decryptObject (JObject [(str ''a'', JString [])]) (Some (str ''k''))
      = Inl (DecodingError TypeError)"
    by (simp add: entries_def bind_sum_def decrypt_leaf_def trim_def)
  show "encryptObject (steady 0) (JObject [(str ''a'', JNull)]) (Some (str ''k'')) 0
      = Some (Inl TypeError)"
    by (simp add: entries_def bind_run_def)
  show "encryptObject (steady 0) (JArray []) (Some (str ''k'')) 0 = Some (Inr (JObject [], 0))"
    by (simp add: entries_def bind_run_def return_run_def)
  show "decryptObject (JObject [(str ''__proto__'', JNumber 1)]) (Some (str ''k'')) = Inr (JObject [])"
    by (simp add: entries_def bind_sum_def set_property_def)
qed

text \<open>
  C5, on the code. A boolean that is an element of an array is not encrypted:
  \<open>encryptObject({a: [true]}, k)\<close> returns \<open>{a: [true]}\<close> and draws nothing, whereas the
  boolean of \<open>{a: true}\<close> is replaced by \<open>encrypt("true", {key})\<close>.
\<close>

theorem boolean_in_sequence:
  "encryptObject rnd (JObject [(str ''a'', JArray [JBoolean True])]) k p
     = Some (Inr (JObject [(str ''a'', JArray [JBoolean True])], p))
   \<and> encryptObject (steady 0) (JObject [(str ''a'', JBoolean True)]) (Some (str ''k'')) 0
     = Some (Inr (JObject [(str ''a'',
          JString (candidate (str ''true'') (str ''A'') (str ''A'') (Some (str ''k''))))], 4))"
  using boolean_in_array boolean_in_object by simp

end
